theory Spec2Isabelle
  imports Complex_Main
begin

section \<open>Synthetic people in census blocks: \<open>polygons_to_points\<close>\<close>

text \<open>
  The notebook \<^verbatim>\<open>cuspatial_synthetic_people.ipynb\<close> defines one function with
  algorithmic content, \<^verbatim>\<open>polygons_to_points\<close>: a rejection-sampling loop that
  draws random candidate points in the bounding box of the polygons still short of
  their quota, asks cuspatial which candidates lie in which polygon, accumulates the
  hits, and finally cuts every polygon's pool down to its quota.

  The embedding follows the function line by line. Coordinates are \<open>float64\<close> in the
  source and the reals they denote here, and the two subtractions the function makes on
  them are rounded; counts and quotas are Python/NumPy integers and \<open>int\<close> or \<open>nat\<close>
  here. What the libraries decide (cupy's random generator and rounding, the cuspatial
  functions, the order cudf's sort gives to rows of equal key) is a parameter of the
  model, collected in the record \<open>library\<close>.
  Exceptions are values of type \<open>py_error\<close>; a loop that never leaves is the value
  \<open>None\<close> of the \<open>option\<close> result. The calls of \<^verbatim>\<open>print\<close> and the variable
  \<^verbatim>\<open>total_points\<close>, which is assigned and never read, are left out.
\<close>

subsection \<open>Data\<close>

text \<open>
  The exceptions of the embedding. The statements of the function can raise the first
  four. \<open>InsufficientPointsError\<close> is the error kind the spec names for the selection;
  no statement of the function raises it.
\<close>

datatype py_error = KeyError | IndexError | ValueError | OverflowError | InsufficientPointsError

text \<open>
  A row of the GeoDataFrame \<^verbatim>\<open>gdf\<close>: its index label, the bounds of its geometry
  (what \<^verbatim>\<open>gdf.bounds\<close> reports) and the value of the column \<^verbatim>\<open>val_col\<close>.
\<close>

record row =
  label :: int
  minx :: real
  miny :: real
  maxx :: real
  maxy :: real
  val :: int

text \<open>A row of \<^verbatim>\<open>keep_points\<close> and of the returned frame: columns \<^verbatim>\<open>x\<close>, \<^verbatim>\<open>y\<close>, \<^verbatim>\<open>geoid\<close>.\<close>

record point =
  px :: real
  py :: real
  geoid :: int

text \<open>A row of the frame returned by \<^verbatim>\<open>cuspatial.quadtree_point_in_polygon\<close>.\<close>

record hit =
  polygon_index :: nat
  point_index :: nat

type_synonym bbox = "real \<times> real \<times> real \<times> real"

type_synonym quadtree = "(nat \<times> nat \<times> bool \<times> nat \<times> nat) list"

text \<open>The arguments of \<^verbatim>\<open>polygons_to_points\<close>.\<close>

record batch =
  gdf :: "row list"
  poly_offsets :: "nat list"
  ring_offsets :: "nat list"
  xcoords :: "real list"
  ycoords :: "real list"
  geoids :: "int list"
  max_depth :: nat
  min_size :: nat
  max_len :: nat

text \<open>
  The libraries the function calls.
  \<^item> \<open>random_sample\<close> is the stream of unit samples behind cupy's global random state.
  \<^item> \<open>float_round\<close> is the rounding of \<open>float64\<close> arithmetic: the difference of two
    doubles that cupy computes is the exact difference, rounded.
  \<^item> \<open>polygon_bounding_boxes\<close> is the cuspatial function of that name. The function
    calls it once, before the loop, on its own arguments; it is taken to return.
  \<^item> \<open>quadtree_on_points\<close>, \<open>join_quadtree_and_bounding_boxes\<close> and
    \<open>quadtree_point_in_polygon\<close> are the cuspatial functions called in every round;
    each of them returns or raises.
  \<^item> \<open>tie_rank\<close> is what cudf's \<^verbatim>\<open>sort_values\<close> does with rows of equal key: the call
    does not ask for a stable sort, so the order of such rows is the library's. The
    library ranks the positions of the frame it sorts.
\<close>

record library =
  random_sample :: "nat \<Rightarrow> real"
  float_round :: "real \<Rightarrow> real"
  polygon_bounding_boxes :: "nat list \<Rightarrow> nat list \<Rightarrow> real list \<Rightarrow> real list \<Rightarrow> bbox list"
  quadtree_on_points ::
    "real list \<Rightarrow> real list \<Rightarrow> real \<Rightarrow> real \<Rightarrow> real \<Rightarrow> real \<Rightarrow> real \<Rightarrow> nat \<Rightarrow> nat
      \<Rightarrow> py_error + (nat list \<times> quadtree)"
  join_quadtree_and_bounding_boxes ::
    "quadtree \<Rightarrow> bbox list \<Rightarrow> real \<Rightarrow> real \<Rightarrow> real \<Rightarrow> real \<Rightarrow> real \<Rightarrow> nat
      \<Rightarrow> py_error + (nat \<times> nat) list"
  quadtree_point_in_polygon ::
    "(nat \<times> nat) list \<Rightarrow> quadtree \<Rightarrow> nat list \<Rightarrow> real list \<Rightarrow> real list
      \<Rightarrow> nat list \<Rightarrow> nat list \<Rightarrow> real list \<Rightarrow> real list \<Rightarrow> py_error + hit list"
  tie_rank :: "point list \<Rightarrow> nat \<Rightarrow> nat"

text \<open>
  The local variables of the \<^verbatim>\<open>while\<close> loop that survive a round, and the position
  in the random stream.
\<close>

record loop_state =
  keep_polygons :: "nat list"
  gen_points :: "int list"
  keep_points :: "point list"
  it :: nat
  rng_pos :: nat

subsection \<open>Array and frame primitives\<close>

text \<open>
  \<^verbatim>\<open>frame.iloc[positions]\<close> with a list of positions: pandas raises \<^verbatim>\<open>IndexError\<close>
  when a position is out of bounds.
\<close>

definition iloc :: "'a list \<Rightarrow> nat list \<Rightarrow> py_error + 'a list" where
  "iloc frame ps =
     (if \<forall>p \<in> set ps. p < length frame then Inr (map (\<lambda>p. frame ! p) ps)
      else Inl IndexError)"

text \<open>
  \<^verbatim>\<open>frame.iloc[range(a, a + k)]\<close> for an integer \<open>k\<close>: the range is empty when
  \<open>k \<le> 0\<close>; otherwise the positions \<open>a, ..., a + k - 1\<close> must all exist.
\<close>

definition iloc_range :: "'a list \<Rightarrow> nat \<Rightarrow> int \<Rightarrow> py_error + 'a list" where
  "iloc_range frame a k =
     (if k \<le> 0 then Inr []
      else if a + nat k \<le> length frame then Inr (take (nat k) (drop a frame))
      else Inl IndexError)"

text \<open>
  \<^verbatim>\<open>gdf.total_bounds\<close>: \<open>(minx, miny, maxx, maxy)\<close> over all rows. The loop only
  calls it on a non-empty selection.
\<close>

definition total_bounds :: "row list \<Rightarrow> bbox" where
  "total_bounds rs =
     (fold min (map minx (tl rs)) (minx (hd rs)),
      fold min (map miny (tl rs)) (miny (hd rs)),
      fold max (map maxx (tl rs)) (maxx (hd rs)),
      fold max (map maxy (tl rs)) (maxy (hd rs)))"

text \<open>
  Modelled from the spec: \<^verbatim>\<open>cupy.random.uniform(low, high, size)\<close>, library code that
  is not part of the repository. The spec's Candidate Sampler "produces \<open>max_len\<close>
  independent points drawn uniformly within the region"; as in cupy, each value is
  \<open>low + (high - low) * u\<close> for the next unit sample \<open>u\<close> of the generator, and
  \<open>size\<close> values are produced.
\<close>

definition uniform :: "(nat \<Rightarrow> real) \<Rightarrow> nat \<Rightarrow> real \<Rightarrow> real \<Rightarrow> nat \<Rightarrow> real list" where
  "uniform u pos low high n = map (\<lambda>i. low + (high - low) * u (pos + i)) [0..<n]"

text \<open>\<^verbatim>\<open>a.min()\<close> and \<^verbatim>\<open>a.max()\<close>: \<^verbatim>\<open>ValueError\<close> on an empty array.\<close>

definition arr_min :: "real list \<Rightarrow> py_error + real" where
  "arr_min a = (case a of [] \<Rightarrow> Inl ValueError | v # vs \<Rightarrow> Inr (fold min vs v))"

definition arr_max :: "real list \<Rightarrow> py_error + real" where
  "arr_max a = (case a of [] \<Rightarrow> Inl ValueError | v # vs \<Rightarrow> Inr (fold max vs v))"

text \<open>
  \<^verbatim>\<open>a[idx]\<close> for a cupy array \<open>a\<close> and an array of non-negative indices: cupy does not
  check bounds but wraps an index around the length of \<open>a\<close>. Nothing can be taken from
  an empty array.
\<close>

definition cupy_take :: "'a list \<Rightarrow> nat list \<Rightarrow> py_error + 'a list" where
  "cupy_take a idx =
     (if idx = [] then Inr []
      else if a = [] then Inl IndexError
      else Inr (map (\<lambda>i. a ! (i mod length a)) idx))"

text \<open>\<^verbatim>\<open>a[i]\<close> for a cupy array and one integer \<open>i \<ge> 0\<close>: bounds are checked.\<close>

definition cupy_get :: "'a list \<Rightarrow> nat \<Rightarrow> py_error + 'a" where
  "cupy_get a i = (if i < length a then Inr (a ! i) else Inl IndexError)"

text \<open>
  \<^verbatim>\<open>frame.groupby(key).count()\<close>: one row per distinct key, in increasing key order,
  with the number of rows of that key.
\<close>

definition groupby_count :: "'k::linorder list \<Rightarrow> ('k \<times> nat) list" where
  "groupby_count ks = map (\<lambda>k. (k, count_list ks k)) (sort (remdups ks))"

text \<open>
  \<^verbatim>\<open>series[key]\<close> on the result of a group-by: a label lookup, \<^verbatim>\<open>KeyError\<close> for a
  label that is not in the index.
\<close>

definition series_get :: "('k \<times> 'v) list \<Rightarrow> 'k \<Rightarrow> py_error + 'v" where
  "series_get ser k = (case map_of ser k of None \<Rightarrow> Inl KeyError | Some v \<Rightarrow> Inr v)"

text \<open>
  \<^verbatim>\<open>gdf[val_col][i]\<close>: the integer \<open>i\<close> is looked up among the index labels of the
  frame, not among its positions. (On a frame whose index is not made of integers,
  pandas reads \<open>i\<close> as a position; that is the case \<open>label = position\<close> here.)
\<close>

definition gdf_val :: "row list \<Rightarrow> int \<Rightarrow> py_error + int" where
  "gdf_val frame i =
     (case find (\<lambda>r. label r = i) frame of None \<Rightarrow> Inl KeyError | Some r \<Rightarrow> Inr (val r))"

text \<open>
  \<^verbatim>\<open>gen_points[count_df['polygon_index']] += count_df['point_index']\<close>. The keys of a
  group-by are distinct, and the loop only passes keys that are positions of
  \<open>gen_points\<close>.
\<close>

definition scatter_add :: "int list \<Rightarrow> (nat \<times> nat) list \<Rightarrow> int list" where
  "scatter_add g count_df = fold (\<lambda>(k, c) a. a[k := a ! k + int c]) count_df g"

text \<open>\<^verbatim>\<open>cupy.where(m > 0)[0]\<close>: the positions of the positive entries, increasing.\<close>

definition where_pos :: "int list \<Rightarrow> nat list" where
  "where_pos m = filter (\<lambda>i. 0 < m ! i) [0..<length m]"

subsection \<open>One round of the loop\<close>

text \<open>\<^verbatim>\<open>num_points = cupy.asarray(gdf[val_col])\<close>: the quota column by position.\<close>

definition num_points :: "batch \<Rightarrow> int list" where
  "num_points B = map val (gdf B)"

text \<open>
  \<^verbatim>\<open>scale = max(max_px - min_px, max_py - min_py) // (1 << max_depth)\<close>: two
  \<open>float64\<close> subtractions, each rounded, and a floor division by the Python integer
  \<open>2 ^ max_depth\<close>. The integer must fit a \<open>float64\<close>: from \<open>max_depth = 1024\<close> on the
  division raises \<^verbatim>\<open>OverflowError\<close>. Below that the divisor is a power of two, and the
  floor of the quotient is computed without rounding.
\<close>

definition quadtree_scale ::
  "library \<Rightarrow> real \<Rightarrow> real \<Rightarrow> real \<Rightarrow> real \<Rightarrow> nat \<Rightarrow> py_error + real" where
  "quadtree_scale L min_px max_px min_py max_py depth =
     (if 1024 \<le> depth then Inl OverflowError
      else Inr (of_int \<lfloor>max (float_round L (max_px - min_px)) (float_round L (max_py - min_py))
                          / 2 ^ depth\<rfloor>))"

text \<open>
  The bounds of the active polygons and the candidates drawn in them (the lines from
  \<^verbatim>\<open>total_bounds\<close> to the second \<^verbatim>\<open>cupy.random.uniform\<close>).
\<close>

definition sample_round ::
  "library \<Rightarrow> batch \<Rightarrow> loop_state \<Rightarrow> py_error + (bbox \<times> real list \<times> real list)" where
  "sample_round L B s =
     (case iloc (gdf B) (keep_polygons s) of
        Inl e \<Rightarrow> Inl e
      | Inr active \<Rightarrow>
          (case total_bounds active of
             (x_min, y_min, x_max, y_max) \<Rightarrow>
               Inr ((x_min, y_min, x_max, y_max),
                    uniform (random_sample L) (rng_pos s) x_min x_max (max_len B),
                    uniform (random_sample L) (rng_pos s + max_len B) y_min y_max (max_len B))))"

text \<open>
  \<^verbatim>\<open>min_px, max_px, min_py, max_py = xs.min(), xs.max(), ys.min(), ys.max()\<close>: the bounds
  of the candidates just drawn.
\<close>

definition point_bounds :: "real list \<Rightarrow> real list \<Rightarrow> py_error + (real \<times> real \<times> real \<times> real)" where
  "point_bounds xs ys =
     (case arr_min xs of Inl e \<Rightarrow> Inl e | Inr min_px \<Rightarrow>
     (case arr_max xs of Inl e \<Rightarrow> Inl e | Inr max_px \<Rightarrow>
     (case arr_min ys of Inl e \<Rightarrow> Inl e | Inr min_py \<Rightarrow>
     (case arr_max ys of Inl e \<Rightarrow> Inl e | Inr max_py \<Rightarrow>
        Inr (min_px, max_px, min_py, max_py)))))"

text \<open>
  The scale, the quadtree, the bounding-box join and the point-in-polygon test (from
  \<^verbatim>\<open>xs.min()\<close> to \<^verbatim>\<open>quadtree_point_in_polygon\<close>). What a cuspatial call raises, the
  round raises.
\<close>

definition join_round ::
  "library \<Rightarrow> batch \<Rightarrow> bbox \<Rightarrow> real list \<Rightarrow> real list \<Rightarrow> py_error + hit list" where
  "join_round L B bounds xs ys =
     (case bounds of
        (x_min, y_min, x_max, y_max) \<Rightarrow>
     (case point_bounds xs ys of
        Inl e \<Rightarrow> Inl e
      | Inr (min_px, max_px, min_py, max_py) \<Rightarrow>
     (case quadtree_scale L min_px max_px min_py max_py (max_depth B) of
        Inl e \<Rightarrow> Inl e
      | Inr scale \<Rightarrow>
     (case quadtree_on_points L xs ys min_px max_px min_py max_py scale
             (max_depth B) (min_size B) of
        Inl e \<Rightarrow> Inl e
      | Inr (key_to_point, qt) \<Rightarrow>
     (case join_quadtree_and_bounding_boxes L qt
             (polygon_bounding_boxes L (poly_offsets B) (ring_offsets B) (xcoords B) (ycoords B))
             x_min x_max y_min y_max scale (max_depth B) of
        Inl e \<Rightarrow> Inl e
      | Inr poly_quad_pairs \<Rightarrow>
          quadtree_point_in_polygon L poly_quad_pairs qt key_to_point xs ys
            (poly_offsets B) (ring_offsets B) (xcoords B) (ycoords B))))))"

text \<open>
  The rest of the loop body: keep the hits of active polygons, append them to
  \<^verbatim>\<open>keep_points\<close>, count them per polygon and recompute the active set.
\<close>

definition accumulate_round ::
  "batch \<Rightarrow> loop_state \<Rightarrow> real list \<Rightarrow> real list \<Rightarrow> hit list \<Rightarrow> py_error + loop_state" where
  "accumulate_round B s xs ys join_result =
     (let result = filter (\<lambda>h. polygon_index h \<in> set (keep_polygons s)) join_result in
     (case cupy_take xs (map point_index result) of Inl e \<Rightarrow> Inl e | Inr rx \<Rightarrow>
     (case cupy_take ys (map point_index result) of Inl e \<Rightarrow> Inl e | Inr ry \<Rightarrow>
     (case cupy_take (geoids B) (map polygon_index result) of Inl e \<Rightarrow> Inl e | Inr rg \<Rightarrow>
     (let new_points =
            map (\<lambda>(a, b, g). \<lparr>px = a, py = b, geoid = g\<rparr>) (zip rx (zip ry rg));
          count_df = groupby_count (map polygon_index result);
          gen = scatter_add (gen_points s) count_df;
          missing_points = map2 (-) (num_points B) gen
      in Inr \<lparr>keep_polygons = where_pos missing_points,
              gen_points = gen,
              keep_points = keep_points s @ new_points,
              it = it s + 1,
              rng_pos = rng_pos s + 2 * max_len B\<rparr>)))))"

definition round_step :: "library \<Rightarrow> batch \<Rightarrow> loop_state \<Rightarrow> py_error + loop_state" where
  "round_step L B s =
     (case sample_round L B s of
        Inl e \<Rightarrow> Inl e
      | Inr (bounds, xs, ys) \<Rightarrow>
          (case join_round L B bounds xs ys of
             Inl e \<Rightarrow> Inl e
           | Inr join_result \<Rightarrow> accumulate_round B s xs ys join_result))"

text \<open>
  Two names for parts of \<open>accumulate_round\<close>: the hits that survive the
  \<^verbatim>\<open>cupy.isin\<close> filter, and the row of \<^verbatim>\<open>keep_points\<close> built from one hit.
\<close>

definition active_hits :: "loop_state \<Rightarrow> hit list \<Rightarrow> hit list" where
  "active_hits s join_result =
     filter (\<lambda>h. polygon_index h \<in> set (keep_polygons s)) join_result"

definition new_point :: "batch \<Rightarrow> real list \<Rightarrow> real list \<Rightarrow> hit \<Rightarrow> point" where
  "new_point B xs ys h =
     \<lparr>px = xs ! (point_index h mod length xs),
      py = ys ! (point_index h mod length ys),
      geoid = geoids B ! (polygon_index h mod length (geoids B))\<rparr>"

subsection \<open>The convergence loop\<close>

text \<open>
  \<^verbatim>\<open>while keep_polygons.shape[0] > 0: ...\<close>. The result is \<open>None\<close> when the loop
  never leaves, \<open>Some (Inl e)\<close> when a round raises \<open>e\<close>, and \<open>Some (Inr s)\<close> when
  the loop is left in state \<open>s\<close>.
\<close>

partial_function (option) sampling_loop ::
  "library \<Rightarrow> batch \<Rightarrow> loop_state \<Rightarrow> (py_error + loop_state) option" where
  "sampling_loop L B s =
     (if keep_polygons s = [] then Some (Inr s)
      else (case round_step L B s of
              Inl e \<Rightarrow> Some (Inl e)
            | Inr s' \<Rightarrow> sampling_loop L B s'))"

definition init_state :: "batch \<Rightarrow> loop_state" where
  "init_state B =
     \<lparr>keep_polygons = [0..<length (gdf B)],
      gen_points = replicate (length (gdf B)) 0,
      keep_points = [],
      it = 0,
      rng_pos = 0\<rparr>"

text \<open>The state after \<open>k\<close> rounds, whatever the loop condition says.\<close>

fun rounds :: "library \<Rightarrow> batch \<Rightarrow> nat \<Rightarrow> loop_state \<Rightarrow> py_error + loop_state" where
  "rounds L B 0 s = Inr s"
| "rounds L B (Suc k) s =
     (case round_step L B s of Inl e \<Rightarrow> Inl e | Inr s' \<Rightarrow> rounds L B k s')"

subsection \<open>Selecting the exact number of points\<close>

text \<open>
  The body of \<^verbatim>\<open>for i in range(gdf.shape[0])\<close>, as a recursion over the remaining
  values of \<open>i\<close>; \<open>point_id\<close> and \<open>selected_points\<close> are the loop's variables.
\<close>

fun select_loop ::
  "batch \<Rightarrow> (int \<times> nat) list \<Rightarrow> point list \<Rightarrow> nat list \<Rightarrow> nat \<Rightarrow> point list list
    \<Rightarrow> py_error + point list list" where
  "select_loop B count_points sorted_points [] point_id selected_points = Inr selected_points"
| "select_loop B count_points sorted_points (i # is) point_id selected_points =
     (case gdf_val (gdf B) (int i) of Inl e \<Rightarrow> Inl e | Inr num_expected_points \<Rightarrow>
     (case iloc_range sorted_points point_id num_expected_points of
        Inl e \<Rightarrow> Inl e | Inr points \<Rightarrow>
     (case cupy_get (geoids B) i of Inl e \<Rightarrow> Inl e | Inr g \<Rightarrow>
     (case series_get count_points g of Inl e \<Rightarrow> Inl e | Inr num_generated_points \<Rightarrow>
        select_loop B count_points sorted_points is (point_id + num_generated_points)
          (selected_points @ [points])))))"

text \<open>
  \<^verbatim>\<open>frame.sort_values(by='geoid')\<close>: the rows in increasing order of \<open>geoid\<close>. Rows of
  equal \<open>geoid\<close> come in the order of the ranks the library gives to their positions
  in the frame, and rows of equal rank in the order of the frame. With the ranks
  \<open>0, 1, 2, ...\<close> the sort is stable.
\<close>

definition sort_values :: "library \<Rightarrow> point list \<Rightarrow> point list" where
  "sort_values L frame =
     sort_key geoid
       (map snd (sort_key fst (zip (map (tie_rank L frame) [0..<length frame]) frame)))"

text \<open>
  The lines after the \<^verbatim>\<open>while\<close> loop. \<^verbatim>\<open>cudf.concat\<close> of an empty list raises
  \<^verbatim>\<open>ValueError\<close>.
\<close>

definition select_exact :: "library \<Rightarrow> batch \<Rightarrow> point list \<Rightarrow> py_error + point list" where
  "select_exact L B pool =
     (let count_points = groupby_count (map geoid pool);
          sorted_points = sort_values L pool
      in (case select_loop B count_points sorted_points [0..<length (gdf B)] 0 [] of
            Inl e \<Rightarrow> Inl e
          | Inr selected_points \<Rightarrow>
              if selected_points = [] then Inl ValueError else Inr (concat selected_points)))"

definition polygons_to_points :: "library \<Rightarrow> batch \<Rightarrow> (py_error + point list) option" where
  "polygons_to_points L B =
     (case sampling_loop L B (init_state B) of
        None \<Rightarrow> None
      | Some (Inl e) \<Rightarrow> Some (Inl e)
      | Some (Inr s) \<Rightarrow> Some (select_exact L B (keep_points s)))"

subsection \<open>Well-formed batches and the loop invariant\<close>

text \<open>
  What the notebook's driver passes: \<^verbatim>\<open>geoids\<close> has one identifier per row of the
  frame and is strictly increasing (it is a slice of \<^verbatim>\<open>cupy.array(range(len(gdf)))\<close>).
\<close>

definition geoids_ok :: "batch \<Rightarrow> bool" where
  "geoids_ok B \<longleftrightarrow> length (geoids B) = length (gdf B) \<and> sorted_wrt (<) (geoids B)"

text \<open>
  A batch whose frame carries the default index \<open>0, ..., n - 1\<close> and whose quotas are
  counts.
\<close>

definition batch_ok :: "batch \<Rightarrow> bool" where
  "batch_ok B \<longleftrightarrow>
     geoids_ok B \<and>
     map label (gdf B) = map int [0..<length (gdf B)] \<and>
     (\<forall>r \<in> set (gdf B). 0 \<le> val r)"

text \<open>The rows of the pool that carry the identifier of polygon \<open>i\<close>.\<close>

definition pool_of :: "batch \<Rightarrow> nat \<Rightarrow> point list \<Rightarrow> point list" where
  "pool_of B i pool = filter (\<lambda>p. geoid p = geoids B ! i) pool"

text \<open>
  What holds of the loop's variables before and after every round: \<^verbatim>\<open>gen_points\<close>
  counts the pool per polygon, the active polygons are positions of the frame, and a
  polygon that is not active has reached its quota.
\<close>

definition loop_inv :: "batch \<Rightarrow> loop_state \<Rightarrow> bool" where
  "loop_inv B s \<longleftrightarrow>
     length (gen_points s) = length (gdf B) \<and>
     (\<forall>p \<in> set (keep_polygons s). p < length (gdf B)) \<and>
     (\<forall>p \<in> set (keep_points s). geoid p \<in> set (geoids B)) \<and>
     (\<forall>i < length (gdf B).
        gen_points s ! i = int (length (pool_of B i (keep_points s))) \<and>
        (i \<notin> set (keep_polygons s) \<longrightarrow> val (gdf B ! i) \<le> gen_points s ! i))"

text \<open>The active bounding box of a state has no area.\<close>

definition degenerate_region :: "batch \<Rightarrow> loop_state \<Rightarrow> bool" where
  "degenerate_region B s \<longleftrightarrow>
     (case total_bounds (map (\<lambda>p. gdf B ! p) (keep_polygons s)) of
        (x_min, y_min, x_max, y_max) \<Rightarrow> x_min = x_max \<or> y_min = y_max)"

subsection \<open>A reference library and example batches\<close>

text \<open>
  A stand-in for cuspatial on polygons that are axis-parallel rectangles with one
  ring each: the bounding box of ring \<open>k\<close> is taken from the coordinate arrays, and a
  point is in the polygon when it is strictly inside that box. No quadtree is built;
  every point is tested against every polygon.
\<close>

definition ring_of :: "nat list \<Rightarrow> 'a list \<Rightarrow> nat \<Rightarrow> 'a list" where
  "ring_of ro cs k =
     (let first = ro ! k;
          stop = (if k + 1 < length ro then ro ! (k + 1) else length cs)
      in take (stop - first) (drop first cs))"

definition ring_bbox :: "nat list \<Rightarrow> real list \<Rightarrow> real list \<Rightarrow> nat \<Rightarrow> bbox" where
  "ring_bbox ro xc yc k =
     (let rx = ring_of ro xc k; ry = ring_of ro yc k
      in (fold min (tl rx) (hd rx), fold min (tl ry) (hd ry),
          fold max (tl rx) (hd rx), fold max (tl ry) (hd ry)))"

definition inside_box :: "bbox \<Rightarrow> real \<Rightarrow> real \<Rightarrow> bool" where
  "inside_box b a c =
     (case b of (x0, y0, x1, y1) \<Rightarrow> x0 < a \<and> a < x1 \<and> y0 < c \<and> c < y1)"

definition brute_force_hits ::
  "real list \<Rightarrow> real list \<Rightarrow> nat list \<Rightarrow> real list \<Rightarrow> real list \<Rightarrow> hit list" where
  "brute_force_hits xs ys ro xc yc =
     concat (map (\<lambda>k. map (\<lambda>i. \<lparr>polygon_index = k, point_index = i\<rparr>)
                         (filter (\<lambda>i. inside_box (ring_bbox ro xc yc k) (xs ! i) (ys ! i))
                                 [0..<length xs]))
                 [0..<length ro])"

definition brute_force :: "(nat \<Rightarrow> real) \<Rightarrow> library" where
  "brute_force u =
     \<lparr>random_sample = u,
      float_round = (\<lambda>v. v),
      polygon_bounding_boxes = (\<lambda>po ro xc yc. map (ring_bbox ro xc yc) [0..<length ro]),
      quadtree_on_points = (\<lambda>xs ys x0 x1 y0 y1 scale depth msize. Inr ([], [])),
      join_quadtree_and_bounding_boxes = (\<lambda>qt boxes x0 x1 y0 y1 scale depth. Inr []),
      quadtree_point_in_polygon =
        (\<lambda>pairs qt key_to_point xs ys po ro xc yc. Inr (brute_force_hits xs ys ro xc yc)),
      tie_rank = (\<lambda>frame i. i)\<rparr>"

text \<open>
  The same library with a quadtree builder that insists on a strictly positive scale,
  and with a sort that leaves rows of equal key in the reverse of their order, or in
  their order by other ranks.
\<close>

definition strict_builder :: "(nat \<Rightarrow> real) \<Rightarrow> library" where
  "strict_builder u =
     (brute_force u)
       \<lparr>quadtree_on_points :=
          (\<lambda>xs ys x0 x1 y0 y1 scale depth msize.
             if 0 < scale then Inr ([], []) else Inl ValueError)\<rparr>"



text \<open>
  A library that finds no candidate inside any polygon of a batch, whatever the
  candidates, and whose other calls return.
\<close>

definition no_hits :: "library \<Rightarrow> batch \<Rightarrow> bool" where
  "no_hits L B \<longleftrightarrow>
     (\<forall>xs ys x0 x1 y0 y1 scale depth msize.
        \<exists>r. quadtree_on_points L xs ys x0 x1 y0 y1 scale depth msize = Inr r) \<and>
     (\<forall>qt boxes x0 x1 y0 y1 scale depth.
        \<exists>r. join_quadtree_and_bounding_boxes L qt boxes x0 x1 y0 y1 scale depth = Inr r) \<and>
     (\<forall>pairs qt key_to_point xs ys.
        quadtree_point_in_polygon L pairs qt key_to_point xs ys
          (poly_offsets B) (ring_offsets B) (xcoords B) (ycoords B) = Inr [])"

text \<open>
  The batch of a list of rectangles \<open>((x0, y0, x1, y1), quota)\<close>, as the notebook
  prepares it: default index, one closed ring of five vertices per polygon, and
  \<open>geoids = 0, ..., n - 1\<close>.
\<close>

definition rect_batch :: "(bbox \<times> int) list \<Rightarrow> nat \<Rightarrow> nat \<Rightarrow> nat \<Rightarrow> batch" where
  "rect_batch rects depth msize len =
     \<lparr>gdf = map (\<lambda>(i, ((x0, y0, x1, y1), q)).
                   \<lparr>label = int i, minx = x0, miny = y0, maxx = x1, maxy = y1, val = q\<rparr>)
                (zip [0..<length rects] rects),
      poly_offsets = [0..<length rects],
      ring_offsets = map (\<lambda>i. 5 * i) [0..<length rects],
      xcoords = concat (map (\<lambda>((x0, y0, x1, y1), q). [x0, x1, x1, x0, x0]) rects),
      ycoords = concat (map (\<lambda>((x0, y0, x1, y1), q). [y0, y0, y1, y1, y0]) rects),
      geoids = map int [0..<length rects],
      max_depth = depth,
      min_size = msize,
      max_len = len\<rparr>"

text \<open>
  Three unit squares in a row with quotas 2, 0 and 2, three candidates per round, and
  a random stream that puts one candidate in the middle of each square.
\<close>

definition three_squares :: batch where
  "three_squares = rect_batch [((0, 0, 1, 1), 2), ((1, 0, 2, 1), 0), ((2, 0, 3, 1), 2)] 4 50 3"

definition centres :: "nat \<Rightarrow> real" where
  "centres k = [1/6, 1/2, 5/6, 1/2, 1/2, 1/2, 1/6, 1/2, 5/6, 1/4, 1/4, 1/4] ! (k mod 12)"

text \<open>The states of that run after its first and its second round, and its result.\<close>

definition after_round1 :: loop_state where
  "after_round1 =
     \<lparr>keep_polygons = [0, 2],
      gen_points = [1, 1, 1],
      keep_points =
        [\<lparr>px = 1/2, py = 1/2, geoid = 0\<rparr>,
         \<lparr>px = 3/2, py = 1/2, geoid = 1\<rparr>,
         \<lparr>px = 5/2, py = 1/2, geoid = 2\<rparr>],
      it = 1,
      rng_pos = 6\<rparr>"

definition after_round2 :: loop_state where
  "after_round2 =
     \<lparr>keep_polygons = [],
      gen_points = [2, 1, 2],
      keep_points =
        [\<lparr>px = 1/2, py = 1/2, geoid = 0\<rparr>,
         \<lparr>px = 3/2, py = 1/2, geoid = 1\<rparr>,
         \<lparr>px = 5/2, py = 1/2, geoid = 2\<rparr>,
         \<lparr>px = 1/2, py = 1/4, geoid = 0\<rparr>,
         \<lparr>px = 5/2, py = 1/4, geoid = 2\<rparr>],
      it = 2,
      rng_pos = 12\<rparr>"


text \<open>
  Two unit squares nine units apart, with quota 1 each. With every unit sample 1/2, all
  candidates fall at \<open>(5, 1/2)\<close>, in the gap between the squares.
\<close>

definition far_apart :: batch where
  "far_apart = rect_batch [((0, 0, 1, 1), 1), ((9, 0, 10, 1), 1)] 10 500 2"

definition halves :: "nat \<Rightarrow> real" where
  "halves k = 1/2"

text \<open>
  Two adjacent unit squares with quotas 1 and 0 and one candidate per round, which a
  stream of unit samples \<open>1/4, 1/2, 1/4, 1/2, ...\<close> puts in the first square.
\<close>

definition first_only :: batch where
  "first_only = rect_batch [((0, 0, 1, 1), 1), ((1, 0, 2, 1), 0)] 4 50 1"

definition left_half :: "nat \<Rightarrow> real" where
  "left_half k = (if even k then 1/4 else 1/2)"




text \<open>One polygon collapsed to the point \<open>(1, 1)\<close>, with quota 1.\<close>

definition collapsed :: batch where
  "collapsed = rect_batch [((1, 1, 1, 1), 1)] 10 500 2"

text \<open>Two overlapping squares with quota 1 each, one candidate per round.\<close>

definition overlapping :: batch where
  "overlapping = rect_batch [((0, 0, 2, 2), 1), ((1, 1, 3, 3), 1)] 4 50 1"

text \<open>Two unit squares with quotas 2 and 1, and a pool with one point in the first.\<close>

definition two_squares :: batch where
  "two_squares = rect_batch [((0, 0, 1, 1), 2), ((1, 0, 2, 1), 1)] 4 50 3"

definition short_pool :: "point list" where
  "short_pool =
     [\<lparr>px = 1/2, py = 1/2, geoid = 0\<rparr>,
      \<lparr>px = 3/2, py = 1/4, geoid = 1\<rparr>,
      \<lparr>px = 3/2, py = 3/4, geoid = 1\<rparr>]"

section \<open>Properties\<close>

subsection \<open>Array primitives\<close>

lemma fold_min_le: "fold min xs (a::real) \<le> a"
proof (induction xs arbitrary: a)
  case Nil
  then show ?case by simp
next
  case (Cons x xs)
  have "fold min xs (min x a) \<le> min x a" by (rule Cons.IH)
  then show ?case by simp
qed

lemma fold_min_lower: "x \<in> set xs \<Longrightarrow> fold min xs (a::real) \<le> x"
proof (induction xs arbitrary: a)
  case Nil
  then show ?case by simp
next
  case (Cons y ys)
  show ?case
  proof (cases "x = y")
    case True
    have "fold min ys (min y a) \<le> min y a" by (rule fold_min_le)
    with True show ?thesis by simp
  next
    case False
    with Cons show ?thesis by simp
  qed
qed

lemma le_fold_max: "(a::real) \<le> fold max xs a"
proof (induction xs arbitrary: a)
  case Nil
  then show ?case by simp
next
  case (Cons x xs)
  have "max x a \<le> fold max xs (max x a)" by (rule Cons.IH)
  then show ?case by simp
qed

lemma fold_max_upper: "x \<in> set xs \<Longrightarrow> x \<le> fold max xs (a::real)"
proof (induction xs arbitrary: a)
  case Nil
  then show ?case by simp
next
  case (Cons y ys)
  show ?case
  proof (cases "x = y")
    case True
    have "max y a \<le> fold max ys (max y a)" by (rule le_fold_max)
    with True show ?thesis by simp
  next
    case False
    with Cons show ?thesis by simp
  qed
qed

lemma scatter_add_length: "length (scatter_add g cdf) = length g"
  unfolding scatter_add_def by (induction cdf arbitrary: g) (auto split: prod.splits)

lemma scatter_add_nth:
  "distinct (map fst cdf) \<Longrightarrow> i < length g \<Longrightarrow>
   scatter_add g cdf ! i = g ! i + (case map_of cdf i of None \<Rightarrow> 0 | Some c \<Rightarrow> int c)"
proof (induction cdf arbitrary: g)
  case Nil
  then show ?case by (simp add: scatter_add_def)
next
  case (Cons kc cdf)
  obtain k c where kc: "kc = (k, c)" by (cases kc)
  let ?g = "g[k := g ! k + int c]"
  have step: "scatter_add g ((k, c) # cdf) = scatter_add ?g cdf"
    by (simp add: scatter_add_def)
  have d: "distinct (map fst cdf)" and nk: "k \<notin> fst ` set cdf"
    using Cons.prems(1) by (auto simp: kc)
  have ih: "scatter_add ?g cdf ! i = ?g ! i + (case map_of cdf i of None \<Rightarrow> 0 | Some c \<Rightarrow> int c)"
    using Cons.IH [OF d, of ?g] Cons.prems(2) by simp
  show ?case
  proof (cases "i = k")
    case True
    have "map_of cdf k = None" using nk by (simp add: map_of_eq_None_iff)
    with ih True Cons.prems(2) show ?thesis by (simp add: step kc)
  next
    case False
    with ih show ?thesis by (simp add: step kc)
  qed
qed

lemma map_of_groupby_count:
  "map_of (groupby_count ks) k = (if k \<in> set ks then Some (count_list ks k) else None)"
proof -
  have "map_of (map (\<lambda>k. (k, count_list ks k)) xs) k =
          (if k \<in> set xs then Some (count_list ks k) else None)" for xs
    by (induction xs) auto
  from this [of "sort (remdups ks)"] show ?thesis by (simp add: groupby_count_def)
qed

lemma distinct_groupby_count: "distinct (map fst (groupby_count ks))"
  by (simp add: groupby_count_def comp_def)

lemma scatter_add_groupby_nth:
  assumes "i < length g"
  shows "scatter_add g (groupby_count ks) ! i = g ! i + int (count_list ks i)"
  using scatter_add_nth [OF distinct_groupby_count assms, of ks]
  by (simp add: map_of_groupby_count)

lemma map_zip3:
  "map F (zip (map f xs) (zip (map g xs) (map h xs))) = map (\<lambda>x. F (f x, g x, h x)) xs"
  by (induction xs) auto

lemma accumulate_round_Inr:
  assumes "accumulate_round B s xs ys jr = Inr s'"
  shows "keep_points s' = keep_points s @ map (new_point B xs ys) (active_hits s jr)"
    and "gen_points s' = scatter_add (gen_points s) (groupby_count (map polygon_index (active_hits s jr)))"
    and "keep_polygons s' = where_pos (map2 (-) (num_points B) (gen_points s'))"
    and "it s' = it s + 1"
    and "rng_pos s' = rng_pos s + 2 * max_len B"
  using assms
  unfolding accumulate_round_def cupy_take_def Let_def active_hits_def
  by (auto split: if_splits simp: map_zip3 new_point_def[abs_def] comp_def)

lemma point_bounds_Inr:
  assumes "point_bounds xs ys = Inr (a, b, c, d)"
  shows "a \<le> b \<and> c \<le> d \<and> (\<forall>x \<in> set xs. a \<le> x \<and> x \<le> b) \<and> (\<forall>y \<in> set ys. c \<le> y \<and> y \<le> d)"
proof -
  from assms obtain x xs' y ys' where xs: "xs = x # xs'" and ys: "ys = y # ys'"
    by (cases xs; cases ys) (auto simp: point_bounds_def arr_min_def arr_max_def)
  from assms have a: "a = fold min xs' x" and b: "b = fold max xs' x"
    and c: "c = fold min ys' y" and d: "d = fold max ys' y"
    by (auto simp: point_bounds_def arr_min_def arr_max_def xs ys)
  have "a \<le> x" "x \<le> b" "c \<le> y" "y \<le> d"
    unfolding a b c d by (rule fold_min_le le_fold_max)+
  moreover have "\<forall>v \<in> set xs'. a \<le> v \<and> v \<le> b"
    unfolding a b by (simp add: fold_min_lower fold_max_upper)
  moreover have "\<forall>v \<in> set ys'. c \<le> v \<and> v \<le> d"
    unfolding c d by (simp add: fold_min_lower fold_max_upper)
  ultimately show ?thesis by (auto simp: xs ys)
qed

lemma floor_scale_zero_iff:
  fixes r :: real
  assumes "0 \<le> r"
  shows "0 \<le> (of_int \<lfloor>r / 2 ^ d\<rfloor> :: real) \<and> ((of_int \<lfloor>r / 2 ^ d\<rfloor> :: real) = 0 \<longleftrightarrow> r < 2 ^ d)"
proof -
  have q: "0 \<le> r / 2 ^ d" using assms by simp
  have "\<lfloor>r / 2 ^ d\<rfloor> = 0 \<longleftrightarrow> r / 2 ^ d < 1"
    using q by (simp add: floor_eq_iff)
  also have "\<dots> \<longleftrightarrow> r < 2 ^ d" by (simp add: divide_less_eq)
  finally show ?thesis using q by simp
qed

subsection \<open>The loop: leaving and not leaving\<close>

lemma loop_exit_rule:
  assumes ret: "sampling_loop L B s = Some r" and init: "I s"
    and step: "\<And>s s'. I s \<Longrightarrow> keep_polygons s \<noteq> [] \<Longrightarrow> round_step L B s = Inr s' \<Longrightarrow> I s'"
  shows "\<forall>s'. r = Inr s' \<longrightarrow> I s' \<and> keep_polygons s' = []"
proof -
  have "L' = L \<and> B' = B \<longrightarrow> I s \<longrightarrow> (\<forall>s'. r = Inr s' \<longrightarrow> I s' \<and> keep_polygons s' = [])"
    if "sampling_loop L' B' s = Some r" for L' B'
  proof (induction L' B' s r rule: sampling_loop.raw_induct)
    case (1 loop L' B' s r)
    show ?case
    proof (intro impI, elim conjE)
      assume eq: "L' = L" "B' = B" and Is: "I s"
      show "\<forall>s'. r = Inr s' \<longrightarrow> I s' \<and> keep_polygons s' = []"
      proof (cases "keep_polygons s = []")
        case True
        with "1.hyps" Is show ?thesis by auto
      next
        case False
        show ?thesis
        proof (cases "round_step L B s")
          case (Inl e)
          with False "1.hyps" eq show ?thesis by auto
        next
          case (Inr s1)
          with False "1.hyps" eq have "loop L' B' s1 = Some r" by simp
          moreover have "I s1" using step [OF Is False Inr] .
          ultimately show ?thesis using "1.IH" eq by blast
        qed
      qed
    qed
  qed (rule that)
  from this [OF ret] init show ?thesis by simp
qed

lemma loop_diverges:
  assumes init: "I s"
    and step: "\<And>s. I s \<Longrightarrow> keep_polygons s \<noteq> [] \<and> (\<exists>s'. round_step L B s = Inr s' \<and> I s')"
  shows "sampling_loop L B s = None"
proof (rule ccontr)
  assume "sampling_loop L B s \<noteq> None"
  then obtain r where ret: "sampling_loop L B s = Some r" by auto
  have "L' = L \<and> B' = B \<longrightarrow> \<not> I s" if "sampling_loop L' B' s = Some r" for L' B'
  proof (induction L' B' s r rule: sampling_loop.raw_induct)
    case (1 loop L' B' s r)
    show ?case
    proof (intro impI notI, elim conjE)
      assume eq: "L' = L" "B' = B" and Is: "I s"
      from step [OF Is] obtain s' where
        s': "keep_polygons s \<noteq> []" "round_step L B s = Inr s'" "I s'" by blast
      with "1.hyps" eq have "loop L' B' s' = Some r" by simp
      from "1.IH" [OF this] eq s' show False by blast
    qed
  qed (rule that)
  from this [OF ret] init show False by simp
qed

lemma rounds_Suc_right:
  "rounds L B (Suc k) s = (case rounds L B k s of Inl e \<Rightarrow> Inl e | Inr t \<Rightarrow> round_step L B t)"
proof (induction k arbitrary: s)
  case 0
  then show ?case by (simp split: sum.splits)
next
  case (Suc k)
  show ?case
  proof (cases "round_step L B s")
    case (Inl e)
    then show ?thesis by simp
  next
    case (Inr s1)
    then show ?thesis using Suc.IH [of s1] by simp
  qed
qed

lemma loop_returns:
  assumes "rounds L B k s = Inl e \<or> (\<exists>s'. rounds L B k s = Inr s' \<and> keep_polygons s' = [])"
  shows "sampling_loop L B s \<noteq> None"
  using assms
proof (induction k arbitrary: s)
  case 0
  then show ?case by (subst sampling_loop.simps) auto
next
  case (Suc k)
  show ?case
  proof (cases "keep_polygons s = []")
    case True
    then show ?thesis by (subst sampling_loop.simps) simp
  next
    case False
    show ?thesis
    proof (cases "round_step L B s")
      case (Inl e')
      with False show ?thesis by (subst sampling_loop.simps) simp
    next
      case (Inr s1)
      with Suc.prems have "rounds L B k s1 = Inl e \<or> (\<exists>s'. rounds L B k s1 = Inr s' \<and> keep_polygons s' = [])"
        by simp
      from Suc.IH [OF this] False Inr show ?thesis by (subst sampling_loop.simps) simp
    qed
  qed
qed

subsection \<open>The loop invariant\<close>

lemma where_pos_iff: "i \<in> set (where_pos m) \<longleftrightarrow> i < length m \<and> 0 < m ! i"
  by (auto simp: where_pos_def)

lemma count_list_map_filter: "count_list (map f xs) k = length (filter (\<lambda>x. f x = k) xs)"
  by (induction xs) auto

lemma active_hits_index: "h \<in> set (active_hits s jr) \<Longrightarrow> polygon_index h \<in> set (keep_polygons s)"
  by (simp add: active_hits_def)

lemma init_inv: "loop_inv B (init_state B)"
  by (simp add: loop_inv_def init_state_def pool_of_def)

lemma geoids_ok_distinct: "geoids_ok B \<Longrightarrow> distinct (geoids B)"
  by (simp add: geoids_ok_def strict_sorted_iff)

lemma geoid_new_point:
  assumes "geoids_ok B" and "polygon_index h < length (gdf B)"
  shows "geoid (new_point B xs ys h) = geoids B ! polygon_index h"
  using assms by (simp add: new_point_def geoids_ok_def)

lemma pool_of_new_points:
  assumes ok: "geoids_ok B" and i: "i < length (gdf B)"
    and hs: "\<forall>h \<in> set hs. polygon_index h < length (gdf B)"
  shows "pool_of B i (map (new_point B xs ys) hs) =
           map (new_point B xs ys) (filter (\<lambda>h. polygon_index h = i) hs)"
proof -
  have "(geoid (new_point B xs ys h) = geoids B ! i) = (polygon_index h = i)" if "h \<in> set hs" for h
  proof -
    from that hs have lt: "polygon_index h < length (geoids B)"
      using ok by (simp add: geoids_ok_def)
    from i ok have "i < length (geoids B)" by (simp add: geoids_ok_def)
    with lt geoids_ok_distinct [OF ok] show ?thesis
      by (simp add: new_point_def nth_eq_iff_index_eq)
  qed
  then show ?thesis
    unfolding pool_of_def filter_map comp_def by (simp cong: filter_cong)
qed

lemma accumulate_round_inv:
  assumes ok: "geoids_ok B" and inv: "loop_inv B s"
    and acc: "accumulate_round B s xs ys jr = Inr s'"
  shows "loop_inv B s'"
proof -
  let ?n = "length (gdf B)"
  let ?hs = "active_hits s jr"
  let ?ks = "map polygon_index ?hs"
  note r = accumulate_round_Inr [OF acc]
  from inv have len: "length (gen_points s) = ?n"
    and act: "\<forall>p \<in> set (keep_polygons s). p < ?n"
    and pool: "\<forall>p \<in> set (keep_points s). geoid p \<in> set (geoids B)"
    and gen: "\<And>i. i < ?n \<Longrightarrow> gen_points s ! i = int (length (pool_of B i (keep_points s)))"
    by (simp_all add: loop_inv_def)
  have hs: "\<forall>h \<in> set ?hs. polygon_index h < ?n"
    using act by (auto dest: active_hits_index)
  have len': "length (gen_points s') = ?n"
    by (simp add: r(2) scatter_add_length len)
  have lenm: "length (map2 (-) (num_points B) (gen_points s')) = ?n"
    by (simp add: num_points_def len')
  have act': "\<forall>p \<in> set (keep_polygons s'). p < ?n"
    using lenm by (simp add: r(3) where_pos_iff)
  have pool': "\<forall>p \<in> set (keep_points s'). geoid p \<in> set (geoids B)"
  proof
    fix p assume "p \<in> set (keep_points s')"
    then consider "p \<in> set (keep_points s)" | h where "h \<in> set ?hs" "p = new_point B xs ys h"
      by (auto simp: r(1))
    then show "geoid p \<in> set (geoids B)"
    proof cases
      case 1
      with pool show ?thesis by simp
    next
      case 2
      with hs have lt: "polygon_index h < ?n" by simp
      with ok have "polygon_index h < length (geoids B)" by (simp add: geoids_ok_def)
      with 2 geoid_new_point [OF ok lt] show ?thesis by simp
    qed
  qed
  have gen': "gen_points s' ! i = int (length (pool_of B i (keep_points s')))" if i: "i < ?n" for i
  proof -
    have "gen_points s' ! i = gen_points s ! i + int (count_list ?ks i)"
      using i len by (simp add: r(2) scatter_add_groupby_nth)
    also have "count_list ?ks i = length (filter (\<lambda>h. polygon_index h = i) ?hs)"
      by (rule count_list_map_filter)
    also have "\<dots> = length (pool_of B i (map (new_point B xs ys) ?hs))"
      by (simp add: pool_of_new_points [OF ok i hs])
    finally show ?thesis
      by (simp add: gen [OF i] r(1) pool_of_def)
  qed
  have quota: "val (gdf B ! i) \<le> gen_points s' ! i"
    if i: "i < ?n" and "i \<notin> set (keep_polygons s')" for i
    using that lenm len' by (simp add: r(3) where_pos_iff num_points_def)
  from len' act' pool' gen' quota show ?thesis by (simp add: loop_inv_def)
qed

lemma round_step_accumulate:
  assumes "round_step L B s = Inr s'"
  obtains bounds xs ys jr where "sample_round L B s = Inr (bounds, xs, ys)"
    and "join_round L B bounds xs ys = Inr jr"
    and "accumulate_round B s xs ys jr = Inr s'"
  using assms by (auto simp: round_step_def split: sum.splits prod.splits)

lemma round_step_inv:
  assumes "geoids_ok B" and "loop_inv B s" and "round_step L B s = Inr s'"
  shows "loop_inv B s'"
  using assms(3) by (rule round_step_accumulate) (rule accumulate_round_inv [OF assms(1,2)])

lemma rounds_inv:
  assumes "geoids_ok B"
  shows "loop_inv B s \<Longrightarrow> rounds L B k s = Inr s' \<Longrightarrow> loop_inv B s'"
proof (induction k arbitrary: s)
  case 0
  then show ?case by simp
next
  case (Suc k)
  from Suc.prems(2) obtain s1 where s1: "round_step L B s = Inr s1" and rest: "rounds L B k s1 = Inr s'"
    by (auto split: sum.splits)
  from round_step_inv [OF assms Suc.prems(1) s1] rest show ?case by (rule Suc.IH)
qed

lemma inactive_stays_inactive:
  assumes ok: "geoids_ok B" and inv: "loop_inv B s"
    and acc: "accumulate_round B s xs ys jr = Inr s'"
    and i: "i < length (gdf B)" and off: "i \<notin> set (keep_polygons s)"
  shows "pool_of B i (keep_points s') = pool_of B i (keep_points s)"
    and "i \<notin> set (keep_polygons s')"
proof -
  let ?hs = "active_hits s jr"
  note r = accumulate_round_Inr [OF acc]
  from inv have len: "length (gen_points s) = length (gdf B)"
    and act: "\<forall>p \<in> set (keep_polygons s). p < length (gdf B)"
    by (simp_all add: loop_inv_def)
  from inv i off have met: "val (gdf B ! i) \<le> gen_points s ! i"
    unfolding loop_inv_def by blast
  have hs: "\<forall>h \<in> set ?hs. polygon_index h < length (gdf B)"
    using act by (auto dest: active_hits_index)
  have none: "filter (\<lambda>h. polygon_index h = i) ?hs = []"
    using off by (auto simp: filter_empty_conv dest: active_hits_index)
  show "pool_of B i (keep_points s') = pool_of B i (keep_points s)"
    using pool_of_new_points [OF ok i hs, of xs ys] none
    by (simp add: r(1) pool_of_def)
  have "count_list (map polygon_index ?hs) i = 0"
    by (simp add: count_list_map_filter none)
  then have "gen_points s' ! i = gen_points s ! i"
    using i len by (simp add: r(2) scatter_add_groupby_nth)
  with met show "i \<notin> set (keep_polygons s')"
    by (simp add: r(3) where_pos_iff num_points_def)
qed

subsection \<open>Sorted pools and the selection loop\<close>

lemma sorted_three_way:
  fixes f :: "'a \<Rightarrow> 'k::linorder"
  assumes "sorted (map f xs)"
  shows "xs = filter (\<lambda>x. f x < g) xs @ filter (\<lambda>x. f x = g) xs @ filter (\<lambda>x. g < f x) xs"
  using assms
proof (induction xs)
  case Nil
  then show ?case by simp
next
  case (Cons x xs)
  then have le: "\<forall>y \<in> set xs. f x \<le> f y"
    and ih: "xs = filter (\<lambda>x. f x < g) xs @ filter (\<lambda>x. f x = g) xs @ filter (\<lambda>x. g < f x) xs"
    by auto
  consider "f x < g" | "f x = g" | "g < f x" by (rule linorder_cases)
  then show ?case
  proof cases
    case 1
    then have "f x \<noteq> g" "\<not> g < f x" by auto
    with 1 ih show ?thesis by simp
  next
    case 2
    with le have "filter (\<lambda>x. f x < g) xs = []" by (auto simp: filter_empty_conv)
    with 2 ih show ?thesis by simp
  next
    case 3
    then have "\<not> f x < g" "f x \<noteq> g" by auto
    moreover from 3 le have "filter (\<lambda>x. f x < g) xs = []" "filter (\<lambda>x. f x = g) xs = []"
      by (auto simp: filter_empty_conv)
    ultimately show ?thesis using 3 ih by simp
  qed
qed

lemma slice_of_sorted:
  fixes f :: "'a \<Rightarrow> 'k::linorder"
  assumes "sorted (map f xs)" and "k \<le> length (filter (\<lambda>x. f x = g) xs)"
  shows "take k (drop (length (filter (\<lambda>x. f x < g) xs)) xs) = take k (filter (\<lambda>x. f x = g) xs)"
proof -
  let ?A = "filter (\<lambda>x. f x < g) xs" and ?M = "filter (\<lambda>x. f x = g) xs"
  let ?C = "filter (\<lambda>x. g < f x) xs"
  have "drop (length ?A) xs = drop (length ?A) (?A @ ?M @ ?C)"
    using sorted_three_way [OF assms(1), of g] by simp
  also have "\<dots> = ?M @ ?C" by simp
  finally show ?thesis using assms(2) by simp
qed

lemma sorted_nth_less_iff:
  fixes G :: "'k::linorder list"
  assumes "sorted_wrt (<) G" and "i < length G" and "j < length G"
  shows "G ! j < G ! i \<longleftrightarrow> j < i"
proof
  assume "j < i"
  with assms show "G ! j < G ! i" by (simp add: sorted_wrt_nth_less)
next
  assume lt: "G ! j < G ! i"
  show "j < i"
  proof (rule ccontr)
    assume "\<not> j < i"
    then consider "i = j" | "i < j" by linarith
    then show False
    proof cases
      case 1
      with lt show False by simp
    next
      case 2
      with assms have "G ! i < G ! j" by (simp add: sorted_wrt_nth_less)
      with lt show False by simp
    qed
  qed
qed

lemma nth_in_take_iff:
  assumes "distinct G" and "i \<le> length G" and "j < length G"
  shows "G ! j \<in> set (take i G) \<longleftrightarrow> j < i"
proof
  assume "G ! j \<in> set (take i G)"
  then obtain m where m: "m < i" "m < length G" "G ! m = G ! j"
    by (auto simp: in_set_conv_nth)
  with assms have "m = j" by (simp add: nth_eq_iff_index_eq)
  with m show "j < i" by simp
next
  assume "j < i"
  with assms show "G ! j \<in> set (take i G)"
    by (auto simp: in_set_conv_nth intro!: exI [of _ j])
qed

lemma prefix_filter:
  assumes ok: "geoids_ok B" and i: "i < length (gdf B)"
    and pool: "\<forall>p \<in> set pool. geoid p \<in> set (geoids B)"
  shows "filter (\<lambda>p. geoid p \<in> set (take i (geoids B))) pool =
         filter (\<lambda>p. geoid p < geoids B ! i) pool"
proof (rule filter_cong [OF refl])
  fix p assume "p \<in> set pool"
  with pool obtain j where j: "j < length (geoids B)" "geoid p = geoids B ! j"
    by (metis in_set_conv_nth)
  from ok i have s: "sorted_wrt (<) (geoids B)" and il: "i < length (geoids B)"
    by (simp_all add: geoids_ok_def)
  from nth_in_take_iff [OF geoids_ok_distinct [OF ok] _ j(1), of i] il
    sorted_nth_less_iff [OF s il j(1)] j(2)
  show "(geoid p \<in> set (take i (geoids B))) = (geoid p < geoids B ! i)" by simp
qed

lemma prefix_step:
  assumes ok: "geoids_ok B" and i: "i < length (gdf B)"
  shows "length (filter (\<lambda>p. geoid p \<in> set (take (Suc i) (geoids B))) pool) =
         length (filter (\<lambda>p. geoid p \<in> set (take i (geoids B))) pool) +
         length (pool_of B i pool)"
proof -
  from ok i have il: "i < length (geoids B)" by (simp add: geoids_ok_def)
  have notin: "geoids B ! i \<notin> set (take i (geoids B))"
    using nth_in_take_iff [OF geoids_ok_distinct [OF ok] _ il, of i] il by simp
  have "length (filter (\<lambda>p. geoid p \<in> set (take i (geoids B)) \<or> geoid p = geoids B ! i) xs) =
        length (filter (\<lambda>p. geoid p \<in> set (take i (geoids B))) xs) +
        length (filter (\<lambda>p. geoid p = geoids B ! i) xs)" for xs :: "point list"
    using notin by (induction xs) auto
  then show ?thesis
    by (simp add: take_Suc_conv_app_nth [OF il] pool_of_def disj_commute)
qed

lemma find_default_index:
  "map label fr = map int [k..<k + length fr] \<Longrightarrow> m < length fr \<Longrightarrow>
   find (\<lambda>r. label r = int (k + m)) fr = Some (fr ! m)"
proof (induction fr arbitrary: k m)
  case Nil
  then show ?case by simp
next
  case (Cons r rs)
  from Cons.prems(1) have r: "label r = int k"
    and rs: "map label rs = map int [Suc k..<Suc k + length rs]"
    by (simp_all add: upt_conv_Cons del: upt_Suc)
  show ?case
  proof (cases m)
    case 0
    with r show ?thesis by simp
  next
    case (Suc j)
    with Cons.prems(2) have "j < length rs" by simp
    from Cons.IH [OF rs this] Suc r show ?thesis by simp
  qed
qed

lemma gdf_val_default_index:
  assumes "map label frame = map int [0..<length frame]" and "i < length frame"
  shows "gdf_val frame (int i) = Inr (val (frame ! i))"
  using find_default_index [of frame 0 i] assms by (simp add: gdf_val_def)

lemma series_get_groupby:
  "series_get (groupby_count (map geoid pool)) g = Inr c \<Longrightarrow>
   c = length (filter (\<lambda>p. geoid p = g) pool)"
  by (auto simp: series_get_def map_of_groupby_count count_list_map_filter split: option.splits if_splits)

subsection \<open>The selected rows\<close>

lemma length_filter_sort_key:
  "length (filter P (sort_key f xs)) = length (filter P xs)"
  by (simp add: filter_sort)

lemma sorted_sort_values: "sorted (map geoid (sort_values L frame))"
  by (simp add: sort_values_def)

lemma length_filter_sort_values:
  "length (filter P (sort_values L frame)) = length (filter P frame)"
proof -
  let ?ks = "map (tie_rank L frame) [0..<length frame]"
  have "length (filter P (sort_values L frame)) =
        length (filter (P \<circ> snd) (sort_key fst (zip ?ks frame)))"
    by (simp add: sort_values_def length_filter_sort_key filter_map)
  also have "\<dots> = length (filter (P \<circ> snd) (zip ?ks frame))"
    by (rule length_filter_sort_key)
  also have "\<dots> = length (filter P (map snd (zip ?ks frame)))"
    by (simp only: filter_map length_map)
  also have "map snd (zip ?ks frame) = frame" by (simp add: map_snd_zip)
  finally show ?thesis .
qed

lemma sort_values_stable:
  assumes "tie_rank L frame = (\<lambda>i. i)"
  shows "sort_values L frame = sort_key geoid frame"
proof -
  have "sort_key fst (zip [0..<length frame] frame) = zip [0..<length frame] frame"
    by (rule sort_key_id_if_sorted) simp
  then show ?thesis by (simp add: sort_values_def assms map_snd_zip)
qed

lemma length_pool_of_sort_values:
  "length (pool_of B i (sort_values L frame)) = length (pool_of B i frame)"
  by (simp add: pool_of_def length_filter_sort_values)

lemma selected_slice:
  assumes ok: "geoids_ok B" and j: "j < length (gdf B)"
    and pool: "\<forall>p \<in> set pool. geoid p \<in> set (geoids B)"
    and enough: "q \<le> int (length (pool_of B j pool))"
    and slice: "iloc_range (sort_values L pool)
                  (length (filter (\<lambda>p. geoid p \<in> set (take j (geoids B))) pool)) q = Inr points"
  shows "points = take (nat q) (pool_of B j (sort_values L pool))"
proof (cases "q \<le> 0")
  case True
  with slice show ?thesis by (simp add: iloc_range_def)
next
  case False
  let ?sp = "sort_values L pool" and ?g = "geoids B ! j"
  have start: "length (filter (\<lambda>p. geoid p \<in> set (take j (geoids B))) pool) =
               length (filter (\<lambda>p. geoid p < ?g) ?sp)"
    by (simp add: prefix_filter [OF ok j pool] length_filter_sort_values)
  have k: "nat q \<le> length (filter (\<lambda>p. geoid p = ?g) ?sp)"
    using enough by (simp add: length_filter_sort_values pool_of_def)
  from slice False have "points = take (nat q) (drop (length (filter (\<lambda>p. geoid p < ?g) ?sp)) ?sp)"
    by (simp add: iloc_range_def start split: if_splits)
  also have "\<dots> = take (nat q) (filter (\<lambda>p. geoid p = ?g) ?sp)"
    by (rule slice_of_sorted [OF sorted_sort_values k])
  finally show ?thesis by (simp add: pool_of_def)
qed

lemma select_loop_char:
  assumes ok: "batch_ok B"
    and pool: "\<forall>p \<in> set pool. geoid p \<in> set (geoids B)"
    and enough: "\<forall>i < length (gdf B). val (gdf B ! i) \<le> int (length (pool_of B i pool))"
  shows "j \<le> length (gdf B) \<Longrightarrow>
         select_loop B (groupby_count (map geoid pool)) (sort_values L pool) [j..<length (gdf B)]
           (length (filter (\<lambda>p. geoid p \<in> set (take j (geoids B))) pool)) sel = Inr out \<Longrightarrow>
         out = sel @ map (\<lambda>i. take (nat (val (gdf B ! i))) (pool_of B i (sort_values L pool)))
                       [j..<length (gdf B)]"
proof (induction "length (gdf B) - j" arbitrary: j sel)
  case 0
  then show ?case by simp
next
  case (Suc d)
  let ?n = "length (gdf B)"
  let ?cp = "groupby_count (map geoid pool)" and ?sp = "sort_values L pool"
  let ?start = "\<lambda>j. length (filter (\<lambda>p. geoid p \<in> set (take j (geoids B))) pool)"
  from Suc.hyps(2) have j: "j < ?n" by simp
  from ok have gok: "geoids_ok B" and lab: "map label (gdf B) = map int [0..<?n]"
    by (simp_all add: batch_ok_def)
  have upt: "[j..<?n] = j # [Suc j..<?n]" using j by (simp add: upt_conv_Cons)
  have gv: "gdf_val (gdf B) (int j) = Inr (val (gdf B ! j))"
    by (rule gdf_val_default_index [OF lab j])
  have cg: "cupy_get (geoids B) j = Inr (geoids B ! j)"
    using gok j by (simp add: cupy_get_def geoids_ok_def)
  from Suc.prems(2) obtain points c where
    sl: "iloc_range ?sp (?start j) (val (gdf B ! j)) = Inr points"
    and sg: "series_get ?cp (geoids B ! j) = Inr c"
    and rest: "select_loop B ?cp ?sp [Suc j..<?n] (?start j + c) (sel @ [points]) = Inr out"
    unfolding upt by (auto simp: gv cg split: sum.splits)
  from enough j have "val (gdf B ! j) \<le> int (length (pool_of B j pool))" by simp
  from selected_slice [OF gok j pool this sl]
  have points: "points = take (nat (val (gdf B ! j))) (pool_of B j ?sp)" .
  have "c = length (pool_of B j pool)"
    using series_get_groupby [OF sg] by (simp add: pool_of_def)
  then have next_start: "?start j + c = ?start (Suc j)"
    by (simp add: prefix_step [OF gok j])
  have "d = ?n - Suc j" using Suc.hyps(2) by simp
  moreover have "Suc j \<le> ?n" using j by simp
  ultimately have "out = (sel @ [points]) @
      map (\<lambda>i. take (nat (val (gdf B ! i))) (pool_of B i ?sp)) [Suc j..<?n]"
    using rest unfolding next_start by (rule Suc.hyps(1))
  then show ?case by (simp add: upt points)
qed

lemma select_exact_char:
  assumes ok: "batch_ok B"
    and pool: "\<forall>p \<in> set pool. geoid p \<in> set (geoids B)"
    and enough: "\<forall>i < length (gdf B). val (gdf B ! i) \<le> int (length (pool_of B i pool))"
    and sel: "select_exact L B pool = Inr out"
  shows "out = concat (map (\<lambda>i. take (nat (val (gdf B ! i))) (pool_of B i (sort_values L pool)))
                         [0..<length (gdf B)])"
proof -
  from sel obtain selected where
    loop: "select_loop B (groupby_count (map geoid pool)) (sort_values L pool)
             [0..<length (gdf B)] 0 [] = Inr selected"
    and out: "out = concat selected"
    by (auto simp: select_exact_def Let_def split: sum.splits if_splits)
  from select_loop_char [OF ok pool enough, of 0 L "[]" selected] loop
  have "selected = map (\<lambda>i. take (nat (val (gdf B ! i))) (pool_of B i (sort_values L pool)))
                     [0..<length (gdf B)]"
    by simp
  with out show ?thesis by simp
qed

lemma concat_none:
  "i \<notin> set js \<Longrightarrow> concat (map (\<lambda>j. if j = i then X else []) js) = []"
  by (induction js) auto

lemma concat_single:
  "i < n \<Longrightarrow> concat (map (\<lambda>j. if j = i then X else []) [0..<n]) = X"
proof (induction n)
  case 0
  then show ?case by simp
next
  case (Suc n)
  show ?case
  proof (cases "i = n")
    case True
    then show ?thesis by (simp add: concat_none)
  next
    case False
    with Suc have "concat (map (\<lambda>j. if j = i then X else []) [0..<n]) = X" by simp
    with False show ?thesis by simp
  qed
qed

lemma pool_of_concat_takes:
  assumes ok: "geoids_ok B" and i: "i < length (gdf B)"
  shows "pool_of B i (concat (map (\<lambda>j. take (q j) (pool_of B j pool)) [0..<length (gdf B)])) =
         take (q i) (pool_of B i pool)"
proof -
  have each: "pool_of B i (take (q j) (pool_of B j pool)) =
              (if j = i then take (q i) (pool_of B i pool) else [])"
    if "j < length (gdf B)" for j
  proof (cases "j = i")
    case True
    have "\<forall>p \<in> set (take (q i) (pool_of B i pool)). geoid p = geoids B ! i"
      by (auto simp: pool_of_def dest: in_set_takeD)
    then show ?thesis using True by (simp add: pool_of_def [of B i "take _ _"])
  next
    case False
    from ok that i have "geoids B ! j \<noteq> geoids B ! i"
      using False geoids_ok_distinct [OF ok] by (simp add: geoids_ok_def nth_eq_iff_index_eq)
    then have "\<forall>p \<in> set (take (q j) (pool_of B j pool)). geoid p \<noteq> geoids B ! i"
      by (auto simp: pool_of_def dest: in_set_takeD)
    then show ?thesis using False by (simp add: pool_of_def [of B i "take _ _"] filter_empty_conv)
  qed
  have "pool_of B i (concat (map (\<lambda>j. take (q j) (pool_of B j pool)) [0..<length (gdf B)])) =
        concat (map (\<lambda>j. pool_of B i (take (q j) (pool_of B j pool))) [0..<length (gdf B)])"
    by (simp add: pool_of_def filter_concat comp_def)
  also have "\<dots> = concat (map (\<lambda>j. if j = i then take (q i) (pool_of B i pool) else [])
                             [0..<length (gdf B)])"
    by (rule arg_cong [where f = concat], rule map_cong [OF refl]) (simp add: each)
  also have "\<dots> = take (q i) (pool_of B i pool)" by (rule concat_single [OF i])
  finally show ?thesis .
qed

subsection \<open>The example runs\<close>

lemma three_squares_ok: "batch_ok three_squares"
  by code_simp

lemma three_squares_round1:
  "round_step (brute_force centres) three_squares (init_state three_squares) = Inr after_round1"
  by code_simp

lemma three_squares_round2:
  "round_step (brute_force centres) three_squares after_round1 = Inr after_round2"
  by code_simp




lemma far_apart_round:
  "round_step (brute_force halves) far_apart
     \<lparr>keep_polygons = [0, 1], gen_points = [0, 0], keep_points = [], it = i, rng_pos = p\<rparr> =
   Inr \<lparr>keep_polygons = [0, 1], gen_points = [0, 0], keep_points = [], it = i + 1, rng_pos = p + 4\<rparr>"
  by code_simp

lemma far_apart_diverges:
  "sampling_loop (brute_force halves) far_apart (init_state far_apart) = None"
proof (rule loop_diverges
    [where I = "\<lambda>s. keep_polygons s = [0, 1] \<and> gen_points s = [0, 0] \<and> keep_points s = []"])
  show "keep_polygons (init_state far_apart) = [0, 1] \<and>
        gen_points (init_state far_apart) = [0, 0] \<and>
        keep_points (init_state far_apart) = []"
    by code_simp
next
  fix s :: loop_state
  assume I: "keep_polygons s = [0, 1] \<and> gen_points s = [0, 0] \<and> keep_points s = []"
  then have s: "s = \<lparr>keep_polygons = [0, 1], gen_points = [0, 0], keep_points = [],
                        it = it s, rng_pos = rng_pos s\<rparr>"
    by (cases s) simp
  have "round_step (brute_force halves) far_apart s =
        Inr \<lparr>keep_polygons = [0, 1], gen_points = [0, 0], keep_points = [],
             it = it s + 1, rng_pos = rng_pos s + 4\<rparr>"
    by (subst s) (rule far_apart_round)
  with I show "keep_polygons s \<noteq> [] \<and>
    (\<exists>s'. round_step (brute_force halves) far_apart s = Inr s' \<and>
          keep_polygons s' = [0, 1] \<and> gen_points s' = [0, 0] \<and> keep_points s' = [])"
    by simp
qed

text \<open>
  A polygon of quota 0 that no candidate has hit has no entry in \<^verbatim>\<open>count_points\<close>, and
  the selection raises \<^verbatim>\<open>KeyError\<close> when it looks the polygon up.
\<close>

lemma first_only_ok: "batch_ok first_only"
  by code_simp

lemma first_only_run:
  "polygons_to_points (brute_force left_half) first_only = Some (Inl KeyError)"
proof -
  let ?s = "\<lparr>keep_polygons = [], gen_points = [1, 0],
            keep_points = [\<lparr>px = 1/2, py = 1/2, geoid = 0\<rparr>], it = 1, rng_pos = 2\<rparr>"
  have a0: "keep_polygons (init_state first_only) \<noteq> []" by code_simp
  have r: "round_step (brute_force left_half) first_only (init_state first_only) = Inr ?s"
    by code_simp
  have "sampling_loop (brute_force left_half) first_only ?s = Some (Inr ?s)"
    by (subst sampling_loop.simps) simp
  then have "sampling_loop (brute_force left_half) first_only (init_state first_only) =
             Some (Inr ?s)"
    by (subst sampling_loop.simps) (simp add: a0 r)
  moreover have "select_exact (brute_force left_half) first_only (keep_points ?s) = Inl KeyError"
    by code_simp
  ultimately show ?thesis by (simp add: polygons_to_points_def)
qed



lemma collapsed_round:
  "round_step (brute_force halves) collapsed
     \<lparr>keep_polygons = [0], gen_points = [0], keep_points = [], it = i, rng_pos = p\<rparr> =
   Inr \<lparr>keep_polygons = [0], gen_points = [0], keep_points = [], it = i + 1, rng_pos = p + 4\<rparr>"
  by code_simp

lemma collapsed_diverges:
  "sampling_loop (brute_force halves) collapsed (init_state collapsed) = None"
proof (rule loop_diverges
    [where I = "\<lambda>s. keep_polygons s = [0] \<and> gen_points s = [0] \<and> keep_points s = []"])
  show "keep_polygons (init_state collapsed) = [0] \<and> gen_points (init_state collapsed) = [0] \<and>
        keep_points (init_state collapsed) = []"
    by code_simp
next
  fix s :: loop_state
  assume I: "keep_polygons s = [0] \<and> gen_points s = [0] \<and> keep_points s = []"
  then have s: "s = \<lparr>keep_polygons = [0], gen_points = [0], keep_points = [], it = it s, rng_pos = rng_pos s\<rparr>"
    by (cases s) simp
  have "round_step (brute_force halves) collapsed s =
        Inr \<lparr>keep_polygons = [0], gen_points = [0], keep_points = [], it = it s + 1, rng_pos = rng_pos s + 4\<rparr>"
    by (subst s) (rule collapsed_round)
  with I show "keep_polygons s \<noteq> [] \<and>
    (\<exists>s'. round_step (brute_force halves) collapsed s = Inr s' \<and>
          keep_polygons s' = [0] \<and> gen_points s' = [0] \<and> keep_points s' = [])"
    by simp
qed

lemma overlapping_round:
  "round_step (brute_force halves) overlapping (init_state overlapping) =
   Inr \<lparr>keep_polygons = [], gen_points = [1, 1],
        keep_points = [\<lparr>px = 3/2, py = 3/2, geoid = 0\<rparr>, \<lparr>px = 3/2, py = 3/2, geoid = 1\<rparr>],
        it = 1, rng_pos = 2\<rparr>"
  by code_simp

lemma overlapping_run:
  "polygons_to_points (brute_force halves) overlapping =
   Some (Inr [\<lparr>px = 3/2, py = 3/2, geoid = 0\<rparr>, \<lparr>px = 3/2, py = 3/2, geoid = 1\<rparr>])"
proof -
  let ?s = "\<lparr>keep_polygons = [], gen_points = [1, 1],
        keep_points = [\<lparr>px = 3/2, py = 3/2, geoid = 0\<rparr>, \<lparr>px = 3/2, py = 3/2, geoid = 1\<rparr>],
        it = 1, rng_pos = 2\<rparr>"
  have a0: "keep_polygons (init_state overlapping) \<noteq> []" by code_simp
  have "sampling_loop (brute_force halves) overlapping ?s = Some (Inr ?s)"
    by (subst sampling_loop.simps) simp
  then have "sampling_loop (brute_force halves) overlapping (init_state overlapping) = Some (Inr ?s)"
    by (subst sampling_loop.simps) (simp add: a0 overlapping_round)
  moreover have "select_exact (brute_force halves) overlapping (keep_points ?s) =
     Inr [\<lparr>px = 3/2, py = 3/2, geoid = 0\<rparr>, \<lparr>px = 3/2, py = 3/2, geoid = 1\<rparr>]"
    by code_simp
  ultimately show ?thesis by (simp add: polygons_to_points_def)
qed

subsection \<open>What a returning run has established\<close>

lemma loop_return_inv:
  assumes ok: "geoids_ok B" and ret: "sampling_loop L B (init_state B) = Some (Inr s)"
  shows "loop_inv B s" and "keep_polygons s = []"
proof -
  from loop_exit_rule [OF ret, where I = "loop_inv B", OF init_inv round_step_inv [OF ok]]
  show "loop_inv B s" and "keep_polygons s = []" by simp_all
qed

lemma loop_return_enough:
  assumes ok: "geoids_ok B" and ret: "sampling_loop L B (init_state B) = Some (Inr s)"
    and i: "i < length (gdf B)"
  shows "val (gdf B ! i) \<le> int (length (pool_of B i (keep_points s)))"
proof -
  from loop_return_inv [OF ok ret] i
  have "gen_points s ! i = int (length (pool_of B i (keep_points s))) \<and>
        val (gdf B ! i) \<le> gen_points s ! i"
    unfolding loop_inv_def by auto
  then show ?thesis by simp
qed

lemma run_output:
  assumes ok: "batch_ok B" and run: "polygons_to_points L B = Some (Inr out)"
  obtains s where "sampling_loop L B (init_state B) = Some (Inr s)"
    and "out = concat (map (\<lambda>i. take (nat (val (gdf B ! i)))
                                 (pool_of B i (sort_values L (keep_points s))))
                         [0..<length (gdf B)])"
proof -
  from run obtain s where ret: "sampling_loop L B (init_state B) = Some (Inr s)"
    and sel: "select_exact L B (keep_points s) = Inr out"
    by (auto simp: polygons_to_points_def split: option.splits sum.splits)
  from ok have gok: "geoids_ok B" by (simp add: batch_ok_def)
  from loop_return_inv(1) [OF gok ret]
  have pool: "\<forall>p \<in> set (keep_points s). geoid p \<in> set (geoids B)"
    by (simp add: loop_inv_def)
  have enough: "\<forall>i < length (gdf B). val (gdf B ! i) \<le> int (length (pool_of B i (keep_points s)))"
    using loop_return_enough [OF gok ret] by simp
  from select_exact_char [OF ok pool enough sel] ret that show thesis by blast
qed

lemma run_pool_of:
  assumes ok: "batch_ok B" and run: "polygons_to_points L B = Some (Inr out)"
    and i: "i < length (gdf B)"
  shows "length (pool_of B i out) = nat (val (gdf B ! i))"
proof -
  from ok have gok: "geoids_ok B" by (simp add: batch_ok_def)
  from run_output [OF ok run] obtain s where
    ret: "sampling_loop L B (init_state B) = Some (Inr s)"
    and out: "out = concat (map (\<lambda>i. take (nat (val (gdf B ! i)))
                                    (pool_of B i (sort_values L (keep_points s))))
                            [0..<length (gdf B)])"
    by blast
  have "pool_of B i out =
        take (nat (val (gdf B ! i))) (pool_of B i (sort_values L (keep_points s)))"
    unfolding out by (rule pool_of_concat_takes [OF gok i])
  moreover have "val (gdf B ! i) \<le> int (length (pool_of B i (keep_points s)))"
    by (rule loop_return_enough [OF gok ret i])
  ultimately show ?thesis by (simp add: length_pool_of_sort_values)
qed

subsection \<open>Rounds that complete, candidates, and what the selection reads\<close>

lemma total_bounds_ordered:
  assumes "rs \<noteq> []" and "\<forall>r \<in> set rs. minx r \<le> maxx r \<and> miny r \<le> maxy r"
    and "total_bounds rs = (x_min, y_min, x_max, y_max)"
  shows "x_min \<le> x_max \<and> y_min \<le> y_max"
proof -
  from assms(1) obtain r rs' where rs: "rs = r # rs'" by (cases rs) auto
  from assms(3) have b: "x_min = fold min (map minx rs') (minx r)" "x_max = fold max (map maxx rs') (maxx r)"
    "y_min = fold min (map miny rs') (miny r)" "y_max = fold max (map maxy rs') (maxy r)"
    by (simp_all add: total_bounds_def rs)
  have "x_min \<le> minx r" "maxx r \<le> x_max" "y_min \<le> miny r" "maxy r \<le> y_max"
    unfolding b by (rule fold_min_le le_fold_max)+
  moreover from assms(2) have "minx r \<le> maxx r" "miny r \<le> maxy r" by (simp_all add: rs)
  ultimately show ?thesis by simp
qed

lemma length_uniform: "length (uniform u pos low high n) = n"
  by (simp add: uniform_def)

lemma uniform_bounds:
  assumes "\<forall>k. 0 \<le> u k \<and> u k \<le> 1" and "low \<le> high" and "x \<in> set (uniform u pos low high n)"
  shows "low \<le> x \<and> x \<le> high"
proof -
  from assms(3) obtain i where x: "x = low + (high - low) * u (pos + i)"
    by (auto simp: uniform_def)
  from assms(1) have u: "0 \<le> u (pos + i)" "u (pos + i) \<le> 1" by simp_all
  from assms(2) have d: "0 \<le> high - low" by simp
  have "0 \<le> (high - low) * u (pos + i)" using d u(1) by simp
  moreover have "(high - low) * u (pos + i) \<le> (high - low) * 1"
    using d u(2) by (rule mult_left_mono [OF _ _, rotated]) 
  ultimately show ?thesis by (simp add: x)
qed

lemma uniform_degenerate: "x \<in> set (uniform u pos low low n) \<Longrightarrow> x = low"
  by (auto simp: uniform_def)

lemma sample_round_Inr:
  assumes "\<forall>p \<in> set (keep_polygons s). p < length (gdf B)"
  shows "sample_round L B s =
           Inr (total_bounds (map (\<lambda>p. gdf B ! p) (keep_polygons s)),
                uniform (random_sample L) (rng_pos s)
                  (fst (total_bounds (map (\<lambda>p. gdf B ! p) (keep_polygons s))))
                  (fst (snd (snd (total_bounds (map (\<lambda>p. gdf B ! p) (keep_polygons s))))))
                  (max_len B),
                uniform (random_sample L) (rng_pos s + max_len B)
                  (fst (snd (total_bounds (map (\<lambda>p. gdf B ! p) (keep_polygons s)))))
                  (snd (snd (snd (total_bounds (map (\<lambda>p. gdf B ! p) (keep_polygons s))))))
                  (max_len B))"
  using assms by (simp add: sample_round_def iloc_def split: prod.splits)

lemma point_bounds_nonempty:
  assumes "xs \<noteq> []" and "ys \<noteq> []"
  shows "\<exists>b. point_bounds xs ys = Inr b"
  using assms by (cases xs; cases ys) (simp_all add: point_bounds_def arr_min_def arr_max_def)

lemma accumulate_round_nonempty:
  assumes "xs \<noteq> []" and "ys \<noteq> []" and "geoids B \<noteq> []"
  shows "\<exists>s'. accumulate_round B s xs ys jr = Inr s'"
  using assms by (simp add: accumulate_round_def cupy_take_def Let_def)

text \<open>
  A round with active polygons that are rows of the frame, at least one candidate and a
  non-empty \<^verbatim>\<open>geoids\<close> raises what its join raises, and nothing else.
\<close>

lemma round_step_cases:
  assumes act: "\<forall>p \<in> set (keep_polygons s). p < length (gdf B)"
    and len: "0 < max_len B" and g: "geoids B \<noteq> []"
  obtains bounds xs ys e where "sample_round L B s = Inr (bounds, xs, ys)"
      and "join_round L B bounds xs ys = Inl e" and "round_step L B s = Inl e"
  | bounds xs ys jr s' where "sample_round L B s = Inr (bounds, xs, ys)"
      and "join_round L B bounds xs ys = Inr jr" and "accumulate_round B s xs ys jr = Inr s'"
      and "round_step L B s = Inr s'"
proof -
  let ?b = "total_bounds (map (\<lambda>p. gdf B ! p) (keep_polygons s))"
  obtain xs ys where sr: "sample_round L B s = Inr (?b, xs, ys)"
    and l: "length xs = max_len B" "length ys = max_len B"
    using sample_round_Inr [OF act, of L] by (simp add: length_uniform)
  from l len have ne: "xs \<noteq> []" "ys \<noteq> []" by auto
  show thesis
  proof (cases "join_round L B ?b xs ys")
    case (Inl e)
    with sr have "round_step L B s = Inl e" by (simp add: round_step_def)
    with sr Inl that(1) show thesis by blast
  next
    case (Inr jr)
    from accumulate_round_nonempty [OF ne g] obtain s' where
      acc: "accumulate_round B s xs ys jr = Inr s'" by blast
    with sr Inr have "round_step L B s = Inr s'" by (simp add: round_step_def)
    with sr Inr acc that(2) show thesis by blast
  qed
qed

lemma loop_next:
  assumes "keep_polygons s \<noteq> []" and "round_step L B s = Inr s'"
  shows "sampling_loop L B s = sampling_loop L B s'"
  using assms by (subst sampling_loop.simps) simp



subsection \<open>The active set after a round\<close>

lemma active_iff_short:
  assumes ok: "geoids_ok B" and inv: "loop_inv B s" and step: "round_step L B s = Inr s'"
    and i: "i < length (gdf B)"
  shows "i \<in> set (keep_polygons s') \<longleftrightarrow>
         int (length (pool_of B i (keep_points s'))) < val (gdf B ! i)"
proof -
  from step obtain bounds xs ys jr where acc: "accumulate_round B s xs ys jr = Inr s'"
    by (rule round_step_accumulate)
  from accumulate_round_inv [OF ok inv acc] i
  have "length (gen_points s') = length (gdf B) \<and>
        gen_points s' ! i = int (length (pool_of B i (keep_points s')))"
    unfolding loop_inv_def by auto
  with i show ?thesis
    by (simp add: accumulate_round_Inr(3) [OF acc] where_pos_iff num_points_def)
qed

lemma new_rows_of_active:
  assumes ok: "geoids_ok B" and inv: "loop_inv B s" and step: "round_step L B s = Inr s'"
  shows "\<exists>new. keep_points s' = keep_points s @ new \<and>
               (\<forall>p \<in> set new. \<exists>j \<in> set (keep_polygons s). geoid p = geoids B ! j)"
proof -
  from step obtain bounds xs ys jr where acc: "accumulate_round B s xs ys jr = Inr s'"
    by (rule round_step_accumulate)
  let ?new = "map (new_point B xs ys) (active_hits s jr)"
  have "\<exists>j \<in> set (keep_polygons s). geoid p = geoids B ! j" if "p \<in> set ?new" for p
  proof -
    from that obtain h where h: "h \<in> set (active_hits s jr)" "p = new_point B xs ys h" by auto
    from h(1) have a: "polygon_index h \<in> set (keep_polygons s)" by (rule active_hits_index)
    with inv have "polygon_index h < length (gdf B)" by (simp add: loop_inv_def)
    from geoid_new_point [OF ok this] a h(2) show ?thesis by blast
  qed
  with accumulate_round_Inr(1) [OF acc] show ?thesis by blast
qed

subsection \<open>The scale of a round\<close>

lemma quadtree_scale_Inr:
  assumes z: "float_round L 0 = 0" and m: "mono (float_round L)"
    and ab: "a \<le> b" and depth: "depth < 1024"
  shows "\<exists>scale. quadtree_scale L a b c d depth = Inr scale \<and>
           scale = of_int \<lfloor>max (float_round L (b - a)) (float_round L (d - c)) / 2 ^ depth\<rfloor> \<and>
           0 \<le> scale \<and>
           (scale = 0 \<longleftrightarrow> max (float_round L (b - a)) (float_round L (d - c)) < 2 ^ depth)"
proof -
  from ab have "float_round L 0 \<le> float_round L (b - a)"
    by (intro monoD [OF m]) simp
  with z have "0 \<le> max (float_round L (b - a)) (float_round L (d - c))"
    by (simp add: le_max_iff_disj)
  from floor_scale_zero_iff [OF this, of depth] depth show ?thesis
    by (simp add: quadtree_scale_def)
qed

subsection \<open>Rounds in which cuspatial finds nothing\<close>

lemma join_round_no_hits:
  assumes nh: "no_hits L B" and depth: "max_depth B < 1024"
    and ne: "xs \<noteq> []" "ys \<noteq> []"
  shows "join_round L B bounds xs ys = Inr []"
proof -
  obtain x_min y_min x_max y_max where b: "bounds = (x_min, y_min, x_max, y_max)"
    by (cases bounds) auto
  from point_bounds_nonempty [OF ne] obtain a b' c d where
    pb: "point_bounds xs ys = Inr (a, b', c, d)" by (metis prod_cases4)
  from depth obtain scale where sc: "quadtree_scale L a b' c d (max_depth B) = Inr scale"
    by (simp add: quadtree_scale_def)
  from nh obtain kp qt where
    q: "quadtree_on_points L xs ys a b' c d scale (max_depth B) (min_size B) = Inr (kp, qt)"
    unfolding no_hits_def by (metis prod.exhaust)
  from nh obtain pairs where
    j: "join_quadtree_and_bounding_boxes L qt
          (polygon_bounding_boxes L (poly_offsets B) (ring_offsets B) (xcoords B) (ycoords B))
          x_min x_max y_min y_max scale (max_depth B) = Inr pairs"
    unfolding no_hits_def by metis
  from nh have
    "quadtree_point_in_polygon L pairs qt kp xs ys
       (poly_offsets B) (ring_offsets B) (xcoords B) (ycoords B) = Inr []"
    unfolding no_hits_def by blast
  with pb sc q j show ?thesis by (simp add: join_round_def b)
qed

lemma round_without_hits:
  assumes nh: "no_hits L B" and depth: "max_depth B < 1024"
    and len: "0 < max_len B" and g: "geoids B \<noteq> []"
    and act: "\<forall>p \<in> set (keep_polygons s). p < length (gdf B)"
  shows "\<exists>s'. round_step L B s = Inr s' \<and> gen_points s' = gen_points s \<and>
              keep_points s' = keep_points s \<and>
              keep_polygons s' = where_pos (map2 (-) (num_points B) (gen_points s))"
proof -
  let ?b = "total_bounds (map (\<lambda>p. gdf B ! p) (keep_polygons s))"
  obtain xs ys where sr: "sample_round L B s = Inr (?b, xs, ys)"
    and l: "length xs = max_len B" "length ys = max_len B"
    using sample_round_Inr [OF act, of L] by (simp add: length_uniform)
  from l len have ne: "xs \<noteq> []" "ys \<noteq> []" by auto
  have jr: "join_round L B ?b xs ys = Inr []" by (rule join_round_no_hits [OF nh depth ne])
  from accumulate_round_nonempty [OF ne g] obtain s' where
    acc: "accumulate_round B s xs ys [] = Inr s'" by blast
  have step: "round_step L B s = Inr s'" using sr jr acc by (simp add: round_step_def)
  have "active_hits s [] = []" by (simp add: active_hits_def)
  with accumulate_round_Inr [OF acc]
  have "gen_points s' = gen_points s" "keep_points s' = keep_points s"
    "keep_polygons s' = where_pos (map2 (-) (num_points B) (gen_points s))"
    by (simp_all add: groupby_count_def scatter_add_def)
  with step show ?thesis by blast
qed

lemma loop_diverges_without_hits:
  assumes nh: "no_hits L B" and depth: "max_depth B < 1024"
    and len: "0 < max_len B" and g: "geoids B \<noteq> []"
    and ne: "keep_polygons s \<noteq> []"
    and act: "\<forall>p \<in> set (keep_polygons s). p < length (gdf B)"
    and lg: "length (gen_points s) = length (gdf B)"
    and short: "\<exists>i < length (gdf B). gen_points s ! i < val (gdf B ! i)"
  shows "sampling_loop L B s = None"
proof (rule loop_diverges
    [where I = "\<lambda>t. gen_points t = gen_points s \<and> keep_polygons t \<noteq> [] \<and>
                      (\<forall>p \<in> set (keep_polygons t). p < length (gdf B))"])
  show "gen_points s = gen_points s \<and> keep_polygons s \<noteq> [] \<and>
        (\<forall>p \<in> set (keep_polygons s). p < length (gdf B))"
    using ne act by simp
next
  fix t :: loop_state
  assume I: "gen_points t = gen_points s \<and> keep_polygons t \<noteq> [] \<and>
             (\<forall>p \<in> set (keep_polygons t). p < length (gdf B))"
  then have act_t: "\<forall>p \<in> set (keep_polygons t). p < length (gdf B)" by simp
  from round_without_hits [OF nh depth len g act_t] obtain t' where
    step: "round_step L B t = Inr t'" and gen: "gen_points t' = gen_points t"
    and keep: "keep_polygons t' = where_pos (map2 (-) (num_points B) (gen_points t))"
    by blast
  from short obtain i where i: "i < length (gdf B)" "gen_points s ! i < val (gdf B ! i)" by blast
  have lm: "length (map2 (-) (num_points B) (gen_points s)) = length (gdf B)"
    by (simp add: num_points_def lg)
  have "i \<in> set (keep_polygons t')"
    using i lm lg I by (simp add: keep where_pos_iff num_points_def)
  then have ne': "keep_polygons t' \<noteq> []" by auto
  have act': "\<forall>p \<in> set (keep_polygons t'). p < length (gdf B)"
    using lm I by (simp add: keep where_pos_iff)
  from I step gen ne' act'
  show "keep_polygons t \<noteq> [] \<and>
        (\<exists>t'. round_step L B t = Inr t' \<and> gen_points t' = gen_points s \<and>
              keep_polygons t' \<noteq> [] \<and> (\<forall>p \<in> set (keep_polygons t'). p < length (gdf B)))"
    by auto
qed

lemma collapsed_no_hits: "no_hits (brute_force u) collapsed"
proof -
  have "brute_force_hits xs ys (ring_offsets collapsed) (xcoords collapsed) (ycoords collapsed) = []"
    for xs ys
  proof -
    have ro: "ring_offsets collapsed = [0]" by code_simp
    have bb: "ring_bbox (ring_offsets collapsed) (xcoords collapsed) (ycoords collapsed) 0 =
              (1, 1, 1, 1)"
      by code_simp
    show ?thesis
      by (simp add: brute_force_hits_def ro bb [unfolded ro] inside_box_def)
  qed
  then show ?thesis by (simp add: no_hits_def brute_force_def)
qed

subsection \<open>Polygons of quota 0\<close>

text \<open>
  What holds of a polygon of quota 0: a returned frame has no row for it, and it is in
  the active set of the first round and of no later round.
\<close>

lemma zero_quota_rows:
  assumes "batch_ok B" and "i < length (gdf B)" and "val (gdf B ! i) = 0"
  shows "(polygons_to_points L B = Some (Inr out) \<longrightarrow>
            filter (\<lambda>p. geoid p = geoids B ! i) out = []) \<and>
         i \<in> set (keep_polygons (init_state B)) \<and>
         (rounds L B (Suc k) (init_state B) = Inr s \<longrightarrow> i \<notin> set (keep_polygons s))"
proof (intro conjI impI)
  assume "polygons_to_points L B = Some (Inr out)"
  from run_pool_of [OF assms(1) this assms(2)] assms(3)
  show "filter (\<lambda>p. geoid p = geoids B ! i) out = []" by (simp add: pool_of_def)
next
  show "i \<in> set (keep_polygons (init_state B))" using assms(2) by (simp add: init_state_def)
next
  assume r: "rounds L B (Suc k) (init_state B) = Inr s"
  from assms(1) have ok: "geoids_ok B" by (simp add: batch_ok_def)
  from r obtain t where t: "rounds L B k (init_state B) = Inr t" and step: "round_step L B t = Inr s"
    unfolding rounds_Suc_right by (auto split: sum.splits)
  from rounds_inv [OF ok init_inv t] have "loop_inv B t" .
  from active_iff_short [OF ok this step assms(2)] assms(3)
  show "i \<notin> set (keep_polygons s)" by simp
qed

subsection \<open>The errors of the selection and the order of ties\<close>







text \<open>
  The lines of the selection have no check of the pool sizes. Handed a pool in which a
  polygon has fewer rows than its quota, which the loop never leaves behind, they fill
  the polygon's rows with rows of the next polygon.
\<close>

lemma selection_without_check:
  "int (length (filter (\<lambda>p. geoid p = geoids two_squares ! 0) short_pool)) < val (gdf two_squares ! 0) \<and>
   select_exact (brute_force halves) two_squares short_pool =
     Inr [\<lparr>px = 1/2, py = 1/2, geoid = 0\<rparr>,
          \<lparr>px = 3/2, py = 1/4, geoid = 1\<rparr>,
          \<lparr>px = 3/2, py = 1/4, geoid = 1\<rparr>]"
  by code_simp


section \<open>Claims\<close>



text \<open>
  Claim C2, as the spec states it: the loop stops after a configured maximum number of
  rounds and signals \<^verbatim>\<open>ConvergenceFailureError\<close>. The function has no such parameter and
  no such check. On two unit squares nine units apart with quota 1 each, when
  every candidate falls in the gap between them, the active set never empties and the
  function neither returns nor raises.
\<close>

theorem no_round_cap_counterexample:
  "polygons_to_points (brute_force halves) far_apart = None"
  by (simp add: polygons_to_points_def far_apart_diverges)

text \<open>
  Claim C2, amended: the convergence loop has no round cap. It is left only when the
  active set is empty or a round raises; it never returns exactly when every number of
  rounds leaves a state, without error, whose active set is non-empty.
\<close>

theorem loop_has_no_round_cap:
  "sampling_loop L B s = None \<longleftrightarrow>
     (\<forall>k. \<exists>s'. rounds L B k s = Inr s' \<and> keep_polygons s' \<noteq> [])"
proof
  assume n: "sampling_loop L B s = None"
  show "\<forall>k. \<exists>s'. rounds L B k s = Inr s' \<and> keep_polygons s' \<noteq> []"
  proof
    fix k
    from n loop_returns [of L B k s] show "\<exists>s'. rounds L B k s = Inr s' \<and> keep_polygons s' \<noteq> []"
      by (cases "rounds L B k s") auto
  qed
next
  assume a: "\<forall>k. \<exists>s'. rounds L B k s = Inr s' \<and> keep_polygons s' \<noteq> []"
  let ?I = "\<lambda>t. \<exists>k. rounds L B k s = Inr t"
  have "?I s" by (rule exI [of _ 0]) simp
  moreover have "keep_polygons t \<noteq> [] \<and> (\<exists>t'. round_step L B t = Inr t' \<and> ?I t')" if "?I t" for t
  proof -
    from that obtain k where k: "rounds L B k s = Inr t" ..
    from a k have ne: "keep_polygons t \<noteq> []" by (metis sum.inject(2))
    from a obtain t' where t': "rounds L B (Suc k) s = Inr t'" by blast
    then have "round_step L B t = Inr t'" by (simp only: rounds_Suc_right k sum.case)
    with t' ne show ?thesis by blast
  qed
  ultimately show "sampling_loop L B s = None" by (rule loop_diverges)
qed

theorem loop_has_no_round_cap_witness:
  "sampling_loop (brute_force halves) far_apart (init_state far_apart) = None \<and>
   (\<forall>k. \<exists>s'. rounds (brute_force halves) far_apart k (init_state far_apart) = Inr s' \<and>
             keep_polygons s' \<noteq> [])"
  using loop_has_no_round_cap [of "brute_force halves" far_apart "init_state far_apart"]
    far_apart_diverges
  by simp

text \<open>
  Claim C3, as the spec states it: a batch whose active bounding box has no area makes
  the loop raise \<^verbatim>\<open>DegenerateRegionError\<close>. The function has no such check. For one
  polygon collapsed to the point \<open>(1, 1)\<close> with quota 1, no candidate is ever strictly
  inside the polygon, and the function loops for ever without raising.
\<close>

theorem collapsed_region_loops:
  "degenerate_region collapsed (init_state collapsed) \<and>
   polygons_to_points (brute_force halves) collapsed = None"
proof -
  have "degenerate_region collapsed (init_state collapsed)" by code_simp
  then show ?thesis by (simp add: polygons_to_points_def collapsed_diverges)
qed

text \<open>
  Claim C3, amended: when the bounding box of the active polygons has collapsed to a
  point or a line, the function makes no check and raises no error of its own. The round
  draws its \<^verbatim>\<open>max_len\<close> candidates, all on one vertical or horizontal line, and hands them
  to cuspatial. If the join of the round raises, the function raises that error;
  otherwise the round completes and the loop goes on from the state the round leaves.
  If cuspatial finds no candidate inside any polygon of the batch, \<^verbatim>\<open>max_depth\<close> is below
  1024 and some polygon is still short of its quota, the loop never returns. (The round
  needs what every round needs: active polygons that are rows of the frame, at least
  one candidate, and a non-empty \<^verbatim>\<open>geoids\<close>.)
\<close>

theorem degenerate_region_is_sampled:
  assumes "degenerate_region B s"
    and "keep_polygons s \<noteq> []"
    and "\<forall>p \<in> set (keep_polygons s). p < length (gdf B)"
    and "0 < max_len B"
    and "geoids B \<noteq> []"
  shows "\<exists>bounds xs ys.
           sample_round L B s = Inr (bounds, xs, ys) \<and>
           length xs = max_len B \<and> length ys = max_len B \<and>
           ((\<forall>x \<in> set xs. x = fst bounds) \<or> (\<forall>y \<in> set ys. y = fst (snd bounds))) \<and>
           (case join_round L B bounds xs ys of
              Inl e \<Rightarrow> round_step L B s = Inl e \<and> sampling_loop L B s = Some (Inl e)
            | Inr join_result \<Rightarrow>
                (\<exists>s'. round_step L B s = Inr s' \<and>
                      sampling_loop L B s = sampling_loop L B s')) \<and>
           (no_hits L B \<and> max_depth B < 1024 \<and> length (gen_points s) = length (gdf B) \<and>
            (\<exists>i < length (gdf B). gen_points s ! i < val (gdf B ! i))
            \<longrightarrow> sampling_loop L B s = None)"
proof -
  let ?b = "total_bounds (map (\<lambda>p. gdf B ! p) (keep_polygons s))"
  obtain x_min y_min x_max y_max where b: "?b = (x_min, y_min, x_max, y_max)"
    by (cases ?b) auto
  from assms(1) have deg: "x_min = x_max \<or> y_min = y_max"
    by (simp add: degenerate_region_def b)
  let ?xs = "uniform (random_sample L) (rng_pos s) x_min x_max (max_len B)"
  let ?ys = "uniform (random_sample L) (rng_pos s + max_len B) y_min y_max (max_len B)"
  have sr: "sample_round L B s = Inr (?b, ?xs, ?ys)"
    using sample_round_Inr [OF assms(3), of L] by (simp add: b)
  have l: "length ?xs = max_len B" "length ?ys = max_len B" by (simp_all add: length_uniform)
  have line: "(\<forall>x \<in> set ?xs. x = fst ?b) \<or> (\<forall>y \<in> set ?ys. y = fst (snd ?b))"
    using deg by (auto simp: b dest: uniform_degenerate)
  from l assms(4) have ne: "?xs \<noteq> []" "?ys \<noteq> []" by auto
  have outcome: "case join_round L B ?b ?xs ?ys of
              Inl e \<Rightarrow> round_step L B s = Inl e \<and> sampling_loop L B s = Some (Inl e)
            | Inr join_result \<Rightarrow>
                (\<exists>s'. round_step L B s = Inr s' \<and>
                      sampling_loop L B s = sampling_loop L B s')"
  proof (cases "join_round L B ?b ?xs ?ys")
    case (Inl e)
    with sr have r: "round_step L B s = Inl e" by (simp add: round_step_def)
    then have "sampling_loop L B s = Some (Inl e)"
      using assms(2) by (subst sampling_loop.simps) simp
    with r Inl show ?thesis by simp
  next
    case (Inr jr)
    from accumulate_round_nonempty [OF ne assms(5)] obtain s' where
      "accumulate_round B s ?xs ?ys jr = Inr s'" by blast
    with sr Inr have r: "round_step L B s = Inr s'" by (simp add: round_step_def)
    from loop_next [OF assms(2) r] r Inr show ?thesis by auto
  qed
  have div: "no_hits L B \<and> max_depth B < 1024 \<and> length (gen_points s) = length (gdf B) \<and>
            (\<exists>i < length (gdf B). gen_points s ! i < val (gdf B ! i))
            \<longrightarrow> sampling_loop L B s = None"
    using loop_diverges_without_hits [OF _ _ assms(4,5,2,3)] by blast
  from sr l line outcome div show ?thesis by blast
qed

theorem degenerate_region_is_sampled_witness:
  "degenerate_region collapsed (init_state collapsed) \<and>
   keep_polygons (init_state collapsed) = [0] \<and>
   length (gdf collapsed) = 1 \<and>
   0 < max_len collapsed \<and>
   geoids collapsed \<noteq> [] \<and>
   no_hits (brute_force halves) collapsed \<and>
   max_depth collapsed < 1024 \<and>
   gen_points (init_state collapsed) = [0] \<and>
   val (gdf collapsed ! 0) = 1 \<and>
   sample_round (brute_force halves) collapsed (init_state collapsed) =
     Inr ((1, 1, 1, 1), [1, 1], [1, 1]) \<and>
   sampling_loop (brute_force halves) collapsed (init_state collapsed) = None"
proof -
  have h1: "degenerate_region collapsed (init_state collapsed)" by code_simp
  have h6: "keep_polygons (init_state collapsed) = [0]" by code_simp
  have h7: "length (gdf collapsed) = 1" by code_simp
  have h4: "0 < max_len collapsed" by code_simp
  have h5: "geoids collapsed \<noteq> []" by code_simp
  have h8: "max_depth collapsed < 1024" by code_simp
  have h9: "gen_points (init_state collapsed) = [0]" by code_simp
  have h10: "val (gdf collapsed ! 0) = 1" by code_simp
  have sr: "sample_round (brute_force halves) collapsed (init_state collapsed) =
              Inr ((1, 1, 1, 1), [1, 1], [1, 1])"
    by code_simp
  have h2: "keep_polygons (init_state collapsed) \<noteq> []" by (simp add: h6)
  have h3: "\<forall>p \<in> set (keep_polygons (init_state collapsed)). p < length (gdf collapsed)"
    by (simp add: h6 h7)
  have short: "\<exists>i < length (gdf collapsed).
                 gen_points (init_state collapsed) ! i < val (gdf collapsed ! i)"
    by (simp add: h7 h9 h10)
  have lg: "length (gen_points (init_state collapsed)) = length (gdf collapsed)"
    by (simp add: h7 h9)
  from degenerate_region_is_sampled [OF h1 h2 h3 h4 h5, of "brute_force halves"]
    collapsed_no_hits [of halves] h8 lg short
  have "sampling_loop (brute_force halves) collapsed (init_state collapsed) = None" by blast
  with h1 h6 h7 h4 h5 collapsed_no_hits [of halves] h8 h9 h10 sr show ?thesis by simp
qed

text \<open>
  Claim C4, as the spec states it: the scale is clamped to a strictly positive minimum
  before it is passed to the quadtree builder. The function passes what line 166
  computes. For the polygon collapsed to \<open>(1, 1)\<close> all candidates coincide, the scale is
  \<open>0\<close>, and a builder that insists on a strictly positive scale is handed that \<open>0\<close> and
  raises.
\<close>

theorem strict_builder_is_handed_zero:
  "sample_round (strict_builder halves) collapsed (init_state collapsed) =
     Inr ((1, 1, 1, 1), [1, 1], [1, 1]) \<and>
   quadtree_scale (strict_builder halves) 1 1 1 1 (max_depth collapsed) = Inr 0 \<and>
   round_step (strict_builder halves) collapsed (init_state collapsed) = Inl ValueError"
  by code_simp

text \<open>
  Claim C4, amended: in every round the scale is the floor division, by
  \<open>2^max_depth\<close>, of the larger of the two ranges of the candidates as \<open>float64\<close>
  subtraction gives them (for \<open>max_depth\<close> below 1024; from there on the division
  raises). It is never negative, it is zero exactly when that larger range is below
  \<open>2^max_depth\<close>, in particular when all candidates coincide, and it is passed as it
  is, with no clamp, to \<^verbatim>\<open>quadtree_on_points\<close> and to
  \<^verbatim>\<open>join_quadtree_and_bounding_boxes\<close>. The rounding of \<open>float64\<close> is monotone and
  leaves \<open>0\<close> as it is.
\<close>

theorem scale_reaches_cuspatial_unclamped:
  assumes "float_round L 0 = 0" and "mono (float_round L)"
    and "point_bounds xs ys = Inr (min_px, max_px, min_py, max_py)"
    and "max_depth B < 1024"
  shows "\<exists>scale.
           quadtree_scale L min_px max_px min_py max_py (max_depth B) = Inr scale \<and>
           scale = of_int \<lfloor>max (float_round L (max_px - min_px)) (float_round L (max_py - min_py))
                           / 2 ^ max_depth B\<rfloor> \<and>
           0 \<le> scale \<and>
           (scale = 0 \<longleftrightarrow>
              max (float_round L (max_px - min_px)) (float_round L (max_py - min_py))
                < 2 ^ max_depth B) \<and>
           (min_px = max_px \<and> min_py = max_py \<longrightarrow> scale = 0) \<and>
           join_round L B (x_min, y_min, x_max, y_max) xs ys =
             (case quadtree_on_points L xs ys min_px max_px min_py max_py scale
                     (max_depth B) (min_size B) of
                Inl e \<Rightarrow> Inl e
              | Inr (key_to_point, qt) \<Rightarrow>
                  (case join_quadtree_and_bounding_boxes L qt
                          (polygon_bounding_boxes L (poly_offsets B) (ring_offsets B)
                             (xcoords B) (ycoords B))
                          x_min x_max y_min y_max scale (max_depth B) of
                     Inl e \<Rightarrow> Inl e
                   | Inr poly_quad_pairs \<Rightarrow>
                       quadtree_point_in_polygon L poly_quad_pairs qt key_to_point xs ys
                         (poly_offsets B) (ring_offsets B) (xcoords B) (ycoords B)))"
proof -
  from point_bounds_Inr [OF assms(3)] have ab: "min_px \<le> max_px" by simp
  from quadtree_scale_Inr [OF assms(1,2) ab assms(4), of min_py max_py]
  obtain scale where sc: "quadtree_scale L min_px max_px min_py max_py (max_depth B) = Inr scale"
    and v: "scale = of_int \<lfloor>max (float_round L (max_px - min_px)) (float_round L (max_py - min_py))
                           / 2 ^ max_depth B\<rfloor>"
    and nn: "0 \<le> scale"
    and z: "scale = 0 \<longleftrightarrow>
              max (float_round L (max_px - min_px)) (float_round L (max_py - min_py))
                < 2 ^ max_depth B"
    by blast
  have co: "min_px = max_px \<and> min_py = max_py \<longrightarrow> scale = 0"
    using z assms(1) by auto
  have jr: "join_round L B (x_min, y_min, x_max, y_max) xs ys =
             (case quadtree_on_points L xs ys min_px max_px min_py max_py scale
                     (max_depth B) (min_size B) of
                Inl e \<Rightarrow> Inl e
              | Inr (key_to_point, qt) \<Rightarrow>
                  (case join_quadtree_and_bounding_boxes L qt
                          (polygon_bounding_boxes L (poly_offsets B) (ring_offsets B)
                             (xcoords B) (ycoords B))
                          x_min x_max y_min y_max scale (max_depth B) of
                     Inl e \<Rightarrow> Inl e
                   | Inr poly_quad_pairs \<Rightarrow>
                       quadtree_point_in_polygon L poly_quad_pairs qt key_to_point xs ys
                         (poly_offsets B) (ring_offsets B) (xcoords B) (ycoords B)))"
    by (simp add: join_round_def assms(3) sc)
  from sc v nn z co jr show ?thesis by blast
qed

theorem scale_reaches_cuspatial_unclamped_witness:
  "float_round (strict_builder halves) 0 = 0 \<and>
   mono (float_round (strict_builder halves)) \<and>
   point_bounds [1, 1] [1, 1] = Inr (1, 1, 1, 1) \<and>
   max_depth collapsed < 1024 \<and>
   (\<exists>scale.
      quadtree_scale (strict_builder halves) 1 1 1 1 (max_depth collapsed) = Inr scale \<and>
      scale = 0 \<and>
      join_round (strict_builder halves) collapsed (1, 1, 1, 1) [1, 1] [1, 1] = Inl ValueError)"
proof -
  have z: "float_round (strict_builder halves) 0 = 0" by code_simp
  have m: "mono (float_round (strict_builder halves))"
    by (simp add: strict_builder_def brute_force_def mono_def)
  have p: "point_bounds [1, 1] [1, 1] = Inr (1, 1, 1, 1)" by code_simp
  have d: "max_depth collapsed < 1024" by code_simp
  have j: "join_round (strict_builder halves) collapsed (1, 1, 1, 1) [1, 1] [1, 1] = Inl ValueError"
    by code_simp
  from scale_reaches_cuspatial_unclamped [OF z m p d, of 1 1 1 1]
  obtain scale where
    "quadtree_scale (strict_builder halves) 1 1 1 1 (max_depth collapsed) = Inr scale"
    "(1::real) = 1 \<and> (1::real) = 1 \<longrightarrow> scale = 0"
    by blast
  with z m p d j show ?thesis by simp
qed

text \<open>
  Claim C5: a polygon whose quota is 0 gets no output record and is never a member of the
  active set. The function does otherwise, at two inputs. In the run on the three
  squares the middle square has quota 0: it is in the active set of the first round, and
  the candidate that falls in it is appended to \<^verbatim>\<open>keep_points\<close>, although the comments
  of the function call the active set the polygons with missing points and keep points
  only for polygons that are not full. In the run on the two squares with quotas 1 and 0
  the only candidate falls in the first square: the loop returns, and the selection raises
  \<^verbatim>\<open>KeyError\<close> when it looks the second polygon up in \<^verbatim>\<open>count_points\<close>, so that no
  record is returned for any polygon. Both batches are well-formed (\<open>three_squares_ok\<close>,
  \<open>first_only_ok\<close>).
\<close>

theorem zero_quota_polygon_defects:
  "val (gdf three_squares ! 1) = 0 \<and>
   1 \<in> set (keep_polygons (init_state three_squares)) \<and>
   round_step (brute_force centres) three_squares (init_state three_squares) = Inr after_round1 \<and>
   \<lparr>px = 3/2, py = 1/2, geoid = 1\<rparr> \<in> set (keep_points after_round1) \<and>
   val (gdf first_only ! 1) = 0 \<and>
   polygons_to_points (brute_force left_half) first_only = Some (Inl KeyError)"
proof -
  have "val (gdf three_squares ! 1) = 0" by code_simp
  moreover have "1 \<in> set (keep_polygons (init_state three_squares))" by code_simp
  moreover have "\<lparr>px = 3/2, py = 1/2, geoid = 1\<rparr> \<in> set (keep_points after_round1)"
    by (simp add: after_round1_def)
  moreover have "val (gdf first_only ! 1) = 0" by code_simp
  ultimately show ?thesis
    using three_squares_round1 first_only_run by simp
qed

text \<open>
  Claim C6, as the spec states it: a candidate that is inside more than one polygon is
  attributed to the lowest polygon only and the ambiguity is counted. The function does
  neither. For two overlapping squares with quota 1 each, the one candidate of the round
  lies in both; it is returned twice, once under each identifier.
\<close>

theorem overlap_accepted_twice:
  "polygons_to_points (brute_force halves) overlapping =
   Some (Inr [\<lparr>px = 3/2, py = 3/2, geoid = 0\<rparr>, \<lparr>px = 3/2, py = 3/2, geoid = 1\<rparr>])"
  by (rule overlapping_run)

text \<open>
  Claim C6, amended: the function uses the result of the join as cuspatial returns it.
  Every \<open>(point, polygon)\<close> pair of the result whose polygon is active adds one row to
  \<^verbatim>\<open>keep_points\<close>, in the order of the result, so a candidate inside several active
  polygons is accepted once for each of them; nothing is dropped or counted.
\<close>

theorem every_active_hit_is_kept:
  assumes "round_step L B s = Inr s'"
  shows "\<exists>bounds xs ys join_result.
           sample_round L B s = Inr (bounds, xs, ys) \<and>
           join_round L B bounds xs ys = Inr join_result \<and>
           keep_points s' =
             keep_points s @
             map (\<lambda>h. \<lparr>px = xs ! (point_index h mod length xs),
                       py = ys ! (point_index h mod length ys),
                       geoid = geoids B ! (polygon_index h mod length (geoids B))\<rparr>)
                 (filter (\<lambda>h. polygon_index h \<in> set (keep_polygons s)) join_result)"
proof -
  from assms obtain bounds xs ys jr where sr: "sample_round L B s = Inr (bounds, xs, ys)"
    and jr: "join_round L B bounds xs ys = Inr jr"
    and acc: "accumulate_round B s xs ys jr = Inr s'"
    by (rule round_step_accumulate)
  from accumulate_round_Inr(1) [OF acc] sr jr show ?thesis
    unfolding active_hits_def new_point_def [abs_def] by blast
qed

theorem every_active_hit_is_kept_witness:
  "round_step (brute_force halves) overlapping (init_state overlapping) =
     Inr \<lparr>keep_polygons = [], gen_points = [1, 1],
          keep_points = [\<lparr>px = 3/2, py = 3/2, geoid = 0\<rparr>, \<lparr>px = 3/2, py = 3/2, geoid = 1\<rparr>],
          it = 1, rng_pos = 2\<rparr> \<and>
   (\<exists>bounds xs ys join_result.
      sample_round (brute_force halves) overlapping (init_state overlapping) = Inr (bounds, xs, ys) \<and>
      join_round (brute_force halves) overlapping bounds xs ys = Inr join_result \<and>
      [\<lparr>px = 3/2, py = 3/2, geoid = 0\<rparr>, \<lparr>px = 3/2, py = 3/2, geoid = 1\<rparr>] =
        keep_points (init_state overlapping) @
        map (\<lambda>h. \<lparr>px = xs ! (point_index h mod length xs),
                  py = ys ! (point_index h mod length ys),
                  geoid = geoids overlapping ! (polygon_index h mod length (geoids overlapping))\<rparr>)
            (filter (\<lambda>h. polygon_index h \<in> set (keep_polygons (init_state overlapping))) join_result))"
  using every_active_hit_is_kept [OF overlapping_round] overlapping_round by simp



text \<open>
  Claim C8: in every round the sampler is called on the bounds of the active polygons
  and yields exactly \<^verbatim>\<open>max_len\<close> values per axis, each within the bounds of its axis; a
  region with \<open>x_min = x_max\<close> or \<open>y_min = y_max\<close> is sampled like any other and gives
  values that are constant on that axis. The generator's unit samples lie in \<open>[0, 1]\<close>,
  and the rows of the frame have bounds with \<open>minx \<le> maxx\<close> and \<open>miny \<le> maxy\<close>.
\<close>

theorem candidate_sampler:
  assumes "\<forall>k. 0 \<le> random_sample L k \<and> random_sample L k \<le> 1"
    and "\<forall>r \<in> set (gdf B). minx r \<le> maxx r \<and> miny r \<le> maxy r"
    and "keep_polygons s \<noteq> []"
    and "\<forall>p \<in> set (keep_polygons s). p < length (gdf B)"
  shows "\<exists>x_min y_min x_max y_max xs ys.
           sample_round L B s = Inr ((x_min, y_min, x_max, y_max), xs, ys) \<and>
           (x_min, y_min, x_max, y_max) = total_bounds (map (\<lambda>p. gdf B ! p) (keep_polygons s)) \<and>
           length xs = max_len B \<and> length ys = max_len B \<and>
           (\<forall>x \<in> set xs. x_min \<le> x \<and> x \<le> x_max) \<and>
           (\<forall>y \<in> set ys. y_min \<le> y \<and> y \<le> y_max) \<and>
           (x_min = x_max \<longrightarrow> (\<forall>x \<in> set xs. x = x_min)) \<and>
           (y_min = y_max \<longrightarrow> (\<forall>y \<in> set ys. y = y_min))"
proof -
  let ?rs = "map (\<lambda>p. gdf B ! p) (keep_polygons s)"
  obtain x_min y_min x_max y_max where b: "total_bounds ?rs = (x_min, y_min, x_max, y_max)"
    by (cases "total_bounds ?rs") auto
  let ?xs = "uniform (random_sample L) (rng_pos s) x_min x_max (max_len B)"
  let ?ys = "uniform (random_sample L) (rng_pos s + max_len B) y_min y_max (max_len B)"
  have sr: "sample_round L B s = Inr ((x_min, y_min, x_max, y_max), ?xs, ?ys)"
    using sample_round_Inr [OF assms(4), of L] by (simp add: b)
  have ne: "?rs \<noteq> []" using assms(3) by simp
  have wf: "\<forall>r \<in> set ?rs. minx r \<le> maxx r \<and> miny r \<le> maxy r"
    using assms(2,4) by auto
  from total_bounds_ordered [OF ne wf b] have ord: "x_min \<le> x_max" "y_min \<le> y_max" by simp_all
  have inx: "\<forall>x \<in> set ?xs. x_min \<le> x \<and> x \<le> x_max"
    using uniform_bounds [OF assms(1) ord(1)] by blast
  have iny: "\<forall>y \<in> set ?ys. y_min \<le> y \<and> y \<le> y_max"
    using uniform_bounds [OF assms(1) ord(2)] by blast
  have dx: "x_min = x_max \<longrightarrow> (\<forall>x \<in> set ?xs. x = x_min)"
    by (auto dest: uniform_degenerate)
  have dy: "y_min = y_max \<longrightarrow> (\<forall>y \<in> set ?ys. y = y_min)"
    by (auto dest: uniform_degenerate)
  have l: "length ?xs = max_len B" "length ?ys = max_len B" by (simp_all add: length_uniform)
  from sr b [symmetric] l inx iny dx dy show ?thesis by blast
qed

theorem candidate_sampler_witness:
  "(\<forall>k. 0 \<le> random_sample (brute_force halves) k \<and> random_sample (brute_force halves) k \<le> 1) \<and>
   gdf collapsed = [\<lparr>label = 0, minx = 1, miny = 1, maxx = 1, maxy = 1, val = 1\<rparr>] \<and>
   keep_polygons (init_state collapsed) = [0] \<and>
   sample_round (brute_force halves) collapsed (init_state collapsed) =
     Inr ((1, 1, 1, 1), [1, 1], [1, 1]) \<and>
   (\<exists>x_min y_min x_max y_max xs ys.
      sample_round (brute_force halves) collapsed (init_state collapsed) =
        Inr ((x_min, y_min, x_max, y_max), xs, ys) \<and>
      length xs = max_len collapsed \<and> length ys = max_len collapsed \<and>
      (\<forall>x \<in> set xs. x_min \<le> x \<and> x \<le> x_max) \<and>
      (\<forall>y \<in> set ys. y_min \<le> y \<and> y \<le> y_max))"
proof -
  have u: "\<forall>k. 0 \<le> random_sample (brute_force halves) k \<and> random_sample (brute_force halves) k \<le> 1"
    by (simp add: brute_force_def halves_def)
  have g: "gdf collapsed = [\<lparr>label = 0, minx = 1, miny = 1, maxx = 1, maxy = 1, val = 1\<rparr>]"
    by code_simp
  have k: "keep_polygons (init_state collapsed) = [0]" by code_simp
  have rows: "\<forall>r \<in> set (gdf collapsed). minx r \<le> maxx r \<and> miny r \<le> maxy r"
    by (simp add: g)
  have ne: "keep_polygons (init_state collapsed) \<noteq> []" by (simp add: k)
  have act: "\<forall>p \<in> set (keep_polygons (init_state collapsed)). p < length (gdf collapsed)"
    by (simp add: k g)
  have v: "sample_round (brute_force halves) collapsed (init_state collapsed) =
             Inr ((1, 1, 1, 1), [1, 1], [1, 1])"
    by code_simp
  from candidate_sampler [OF u rows ne act] u g k v show ?thesis by blast
qed




text \<open>
  Claim C10: in every round of the loop, the rows appended to \<^verbatim>\<open>keep_points\<close> all
  belong to polygons of the current active set; for a polygon that is not active, the
  pool does not change in the round and the polygon is not active after it either; and
  after the round a polygon is active exactly when its pool is still smaller than its
  quota. So the pool of a polygon stops growing with the round in which it reaches the
  quota.
\<close>

theorem only_active_polygons_accumulate:
  assumes "geoids_ok B" and "rounds L B k (init_state B) = Inr s" and "round_step L B s = Inr s'"
    and "i < length (gdf B)"
  shows "(\<exists>new. keep_points s' = keep_points s @ new \<and>
                (\<forall>p \<in> set new. \<exists>j \<in> set (keep_polygons s). geoid p = geoids B ! j)) \<and>
         (i \<notin> set (keep_polygons s) \<longrightarrow>
            filter (\<lambda>p. geoid p = geoids B ! i) (keep_points s') =
            filter (\<lambda>p. geoid p = geoids B ! i) (keep_points s) \<and>
            i \<notin> set (keep_polygons s')) \<and>
         (i \<in> set (keep_polygons s') \<longleftrightarrow>
            int (length (filter (\<lambda>p. geoid p = geoids B ! i) (keep_points s'))) < val (gdf B ! i))"
proof -
  from rounds_inv [OF assms(1) init_inv assms(2)] have inv: "loop_inv B s" .
  from assms(3) obtain bounds xs ys jr where acc: "accumulate_round B s xs ys jr = Inr s'"
    by (rule round_step_accumulate)
  from new_rows_of_active [OF assms(1) inv assms(3)]
    inactive_stays_inactive [OF assms(1) inv acc assms(4)]
    active_iff_short [OF assms(1) inv assms(3,4)]
  show ?thesis by (simp add: pool_of_def)
qed

theorem only_active_polygons_accumulate_witness:
  "geoids_ok three_squares \<and>
   rounds (brute_force centres) three_squares (Suc 0) (init_state three_squares) = Inr after_round1 \<and>
   round_step (brute_force centres) three_squares after_round1 = Inr after_round2 \<and>
   1 < length (gdf three_squares) \<and>
   1 \<notin> set (keep_polygons after_round1) \<and>
   filter (\<lambda>p. geoid p = geoids three_squares ! 1) (keep_points after_round2) =
     filter (\<lambda>p. geoid p = geoids three_squares ! 1) (keep_points after_round1) \<and>
   1 \<notin> set (keep_polygons after_round2)"
proof -
  have g: "geoids_ok three_squares" using three_squares_ok by (simp add: batch_ok_def)
  have i: "1 < length (gdf three_squares)" by code_simp
  have r: "rounds (brute_force centres) three_squares (Suc 0) (init_state three_squares) = Inr after_round1"
    by (simp add: three_squares_round1)
  have off: "1 \<notin> set (keep_polygons after_round1)" by (simp add: after_round1_def)
  from only_active_polygons_accumulate [OF g r three_squares_round2 i] g r three_squares_round2 i off
  show ?thesis by simp
qed

end
